theory Spec2Isabelle
  imports Main "HOL-Library.Sublist" "HOL-Library.AList"
begin

section \<open>Text and regular expressions\<close>

text \<open>
  The scripts of \<^verbatim>\<open>fix-path.js\<close> edit HTML files with JavaScript string methods and
  regular expressions. A JavaScript string is modelled as a \<^typ>\<open>string\<close>, one
  \<^typ>\<open>char\<close> for each code unit; the model covers the code units below 256.

  The regular expressions of the source are all sequences of three kinds of item: one
  character of a class, a greedy star of a class (\<^verbatim>\<open>[^>]*\<close>) and a lazy star of a class
  (\<^verbatim>\<open>[\s\S]*?\<close>, \<^verbatim>\<open>.*?\<close>). \<open>rmatch\<close> is the backtracking matcher of ECMAScript on
  that fragment: it returns the length of the match that starts at the head of the
  text, trying the alternatives of a star in the order of the language (a greedy star
  takes a character before it tries the rest, a lazy star tries the rest first).
\<close>

datatype cclass =
    Lit char              \<comment> \<open>a literal character\<close>
  | OneOf "char list"     \<comment> \<open>\<^verbatim>\<open>[abc]\<close>\<close>
  | NoneOf "char list"    \<comment> \<open>\<^verbatim>\<open>[^abc]\<close>\<close>
  | AnyChar               \<comment> \<open>\<^verbatim>\<open>[\s\S]\<close>\<close>
  | Dot                   \<comment> \<open>\<^verbatim>\<open>.\<close>: any character but a line terminator\<close>

datatype item = One cclass | Greedy cclass | Lazy cclass

type_synonym regex = "item list"

fun accepts :: "cclass \<Rightarrow> char \<Rightarrow> bool" where
  "accepts (Lit a) c = (c = a)"
| "accepts (OneOf cs) c = (c \<in> set cs)"
| "accepts (NoneOf cs) c = (c \<notin> set cs)"
| "accepts AnyChar c = True"
| "accepts Dot c = (c \<noteq> CHR 0x0A \<and> c \<noteq> CHR 0x0D)"

fun rmatch :: "regex \<Rightarrow> string \<Rightarrow> nat option" where
  "rmatch [] s = Some 0"
| "rmatch (One k # r) [] = None"
| "rmatch (One k # r) (c # cs) =
     (if accepts k c then map_option Suc (rmatch r cs) else None)"
| "rmatch (Lazy k # r) [] = rmatch r []"
| "rmatch (Lazy k # r) (c # cs) =
     (case rmatch r (c # cs) of
        Some n \<Rightarrow> Some n
      | None \<Rightarrow> (if accepts k c then map_option Suc (rmatch (Lazy k # r) cs) else None))"
| "rmatch (Greedy k # r) [] = rmatch r []"
| "rmatch (Greedy k # r) (c # cs) =
     (if accepts k c
      then (case rmatch (Greedy k # r) cs of
              Some n \<Rightarrow> Some (Suc n)
            | None \<Rightarrow> rmatch r (c # cs))
      else rmatch r (c # cs))"

definition lit :: "string \<Rightarrow> regex" where
  "lit s = map (\<lambda>c. One (Lit c)) s"

lemma rmatch_le: "rmatch r s = Some n \<Longrightarrow> n \<le> length s"
proof (induction r s arbitrary: n rule: rmatch.induct)
  case (5 k r c cs)
  then show ?case by (fastforce split: option.splits if_splits)
next
  case (7 k r c cs)
  then show ?case by (fastforce split: option.splits if_splits)
qed (auto split: if_splits)

text \<open>
  \<^verbatim>\<open>String.prototype.replace\<close> with a global regular expression and a replacement text
  without \<^verbatim>\<open>$\<close>: the text is scanned from the left, every match is replaced and the scan
  resumes behind it. After an empty match the scan moves on by one character, which is
  copied.
\<close>

function replace_g :: "regex \<Rightarrow> string \<Rightarrow> string \<Rightarrow> string" where
  "replace_g re rep s =
     (case rmatch re s of
        None \<Rightarrow> (case s of [] \<Rightarrow> [] | c # cs \<Rightarrow> c # replace_g re rep cs)
      | Some n \<Rightarrow>
          (if n = 0 then (case s of [] \<Rightarrow> rep | c # cs \<Rightarrow> rep @ c # replace_g re rep cs)
           else rep @ replace_g re rep (drop n s)))"
  by pat_completeness auto
termination
proof (relation "measure (\<lambda>(re, rep, s). length s)")
  fix re :: regex and rep s :: string and n :: nat
  assume "rmatch re s = Some n" and "n \<noteq> 0"
  then have "0 < n \<and> n \<le> length s" using rmatch_le by auto
  then have "length (drop n s) < length s" by (simp; arith)
  then show "((re, rep, drop n s), (re, rep, s)) \<in> measure (\<lambda>(re, rep, s). length s)"
    by simp
qed auto

declare replace_g.simps [simp del]

text \<open>\<^verbatim>\<open>String.prototype.includes\<close>.\<close>

fun str_includes :: "string \<Rightarrow> string \<Rightarrow> bool" where
  "str_includes [] n = (n = [])"
| "str_includes (c # cs) n = (prefix n (c # cs) \<or> str_includes cs n)"

text \<open>\<^verbatim>\<open>Array.prototype.join\<close> on texts.\<close>

fun join :: "string \<Rightarrow> string list \<Rightarrow> string" where
  "join sep [] = []"
| "join sep [p] = p"
| "join sep (p # q # ps) = p @ sep @ join sep (q # ps)"

section \<open>Files\<close>

text \<open>
  A file on disk has its text and may refuse to be read or written; \<open>readFileSync\<close> and
  \<open>writeFileSync\<close> then throw. A \<open>run\<close> is what one call of a transformer leaves: the
  file, the texts handed to \<^verbatim>\<open>fs.writeFileSync\<close> and the counter \<^verbatim>\<open>processedFiles\<close> of
  the instance.
\<close>

datatype js_error = ENOENT | EISDIR | ENOTDIR | ENOTEMPTY | EACCES | EPERM | EINVAL | RangeError

record disk_file =
  text_of :: string
  read_error :: "js_error option"
  write_error :: "js_error option"

record run =
  file_of :: disk_file
  writes :: "string list"
  processedFiles :: nat

definition readFileSync :: "disk_file \<Rightarrow> js_error + string" where
  "readFileSync f = (case read_error f of Some e \<Rightarrow> Inl e | None \<Rightarrow> Inr (text_of f))"

definition writeFileSync :: "disk_file \<Rightarrow> string \<Rightarrow> js_error + disk_file" where
  "writeFileSync f c = (case write_error f of Some e \<Rightarrow> Inl e | None \<Rightarrow> Inr (f\<lparr>text_of := c\<rparr>))"

section \<open>PathFixer.fixPathsInHtml\<close>

text \<open>
  Paths are lists of segments. \<open>relative\<close> is \<^verbatim>\<open>path.relative\<close> on two absolute paths:
  the common prefix is dropped and every remaining segment of the first path is
  climbed with \<^verbatim>\<open>..\<close>. \<open>split_sep\<close> is \<^verbatim>\<open>relativePath.split(path.sep)\<close> on the joined
  result, which has one empty segment when the two paths are the same.
\<close>

type_synonym path = "string list"

fun relative :: "path \<Rightarrow> path \<Rightarrow> path" where
  "relative (a # as) (b # bs) =
     (if a = b then relative as bs else replicate (length (a # as)) ''..'' @ (b # bs))"
| "relative as bs = replicate (length as) ''..'' @ bs"

definition split_sep :: "path \<Rightarrow> string list" where
  "split_sep p = (if p = [] then [[]] else p)"

definition depth_of :: "path \<Rightarrow> path \<Rightarrow> nat" where
  "depth_of rootPath filePath = length (split_sep (relative rootPath filePath)) - 1"

definition parentToken :: regex where
  "parentToken = lit ''../''"

definition repeat :: "string \<Rightarrow> nat \<Rightarrow> string" where
  "repeat s n = concat (replicate n s)"

definition fixRelative :: "nat \<Rightarrow> string \<Rightarrow> string" where
  "fixRelative depth content =
     (if depth = 0 then replace_g parentToken ''./'' content
      else if depth = 1 then replace_g parentToken ''../'' content
      else replace_g parentToken (repeat ''../'' depth) content)"

definition dq :: char where "dq = CHR 0x22"
definition sq :: char where "sq = CHR 0x27"

definition absoluteDomain :: regex where
  "absoluteDomain = One (OneOf [dq, sq]) # lit ''/www.miracles-of-quran.com/''"

definition bareDomain :: regex where
  "bareDomain = One (OneOf [dq, sq]) # lit ''www.miracles-of-quran.com/''"

definition hrefDomain :: regex where
  "hrefDomain = lit (''href='' @ [dq] @ ''www.miracles-of-quran.com/'')"

definition srcDomain :: regex where
  "srcDomain = lit (''src='' @ [dq] @ ''www.miracles-of-quran.com/'')"

definition fixAbsolute :: "string \<Rightarrow> string" where
  "fixAbsolute content = replace_g absoluteDomain (dq # ''/'') content"

definition fixBare :: "string \<Rightarrow> string" where
  "fixBare content = replace_g bareDomain (dq # ''./'') content"

definition fixHref :: "string \<Rightarrow> string" where
  "fixHref content = replace_g hrefDomain (''href='' @ dq # ''./'') content"

definition fixSrc :: "string \<Rightarrow> string" where
  "fixSrc content = replace_g srcDomain (''src='' @ dq # ''./'') content"

definition fixDomain :: "string \<Rightarrow> string" where
  "fixDomain content = fixSrc (fixHref (fixBare (fixAbsolute content)))"

definition fixContent :: "nat \<Rightarrow> string \<Rightarrow> string" where
  "fixContent depth content = fixDomain (fixRelative depth content)"

text \<open>
  \<^verbatim>\<open>fixPathsInHtml\<close>: every exception of the body is caught and logged, so a file that
  cannot be read is left alone, and a write that fails leaves the counter as it was.
\<close>

definition fixPathsInHtml :: "path \<Rightarrow> path \<Rightarrow> disk_file \<Rightarrow> nat \<Rightarrow> run" where
  "fixPathsInHtml filePath rootPath f processed =
     (case readFileSync f of
        Inl e \<Rightarrow> \<lparr>file_of = f, writes = [], processedFiles = processed\<rparr>
      | Inr originalContent \<Rightarrow>
          (let depth = depth_of rootPath filePath;
               content = fixContent depth originalContent
           in if content \<noteq> originalContent
              then (case writeFileSync f content of
                      Inl e \<Rightarrow> \<lparr>file_of = f, writes = [content], processedFiles = processed\<rparr>
                    | Inr f' \<Rightarrow>
                        \<lparr>file_of = f', writes = [content], processedFiles = processed + 1\<rparr>)
              else \<lparr>file_of = f, writes = [], processedFiles = processed\<rparr>))"

section \<open>RemoveFooterSection.processFile\<close>

text \<open>
  \<^verbatim>\<open>String.prototype.match\<close> with a regular expression that is not global: the text of
  the first match, looked for at every start position from the left.
\<close>

fun str_match :: "regex \<Rightarrow> string \<Rightarrow> string option" where
  "str_match re [] = map_option (\<lambda>n. take n []) (rmatch re [])"
| "str_match re (c # cs) =
     (case rmatch re (c # cs) of
        Some n \<Rightarrow> Some (take n (c # cs))
      | None \<Rightarrow> str_match re cs)"

text \<open>\<^verbatim>\<open>String.prototype.indexOf\<close>.\<close>

fun indexOf :: "string \<Rightarrow> string \<Rightarrow> nat option" where
  "indexOf [] n = (if n = [] then Some 0 else None)"
| "indexOf (c # cs) n =
     (if prefix n (c # cs) then Some 0 else map_option Suc (indexOf cs n))"

text \<open>
  \<^verbatim>\<open>GetSubstitution\<close> of ECMAScript for a pattern that is a string: no capture exists, so
  of the \<^verbatim>\<open>$\<close> sequences of the replacement text only \<^verbatim>\<open>$$\<close>, \<^verbatim>\<open>$&\<close>, the text before
  the match and the text behind it are expanded; every other character is copied.
\<close>

fun GetSubstitution :: "string \<Rightarrow> string \<Rightarrow> string \<Rightarrow> string \<Rightarrow> string" where
  "GetSubstitution matched preceding following [] = []"
| "GetSubstitution matched preceding following [c] = [c]"
| "GetSubstitution matched preceding following (c # d # r) =
     (if c = CHR ''$'' \<and> d = CHR ''$'' then CHR ''$'' # GetSubstitution matched preceding following r
      else if c = CHR ''$'' \<and> d = CHR ''&'' then matched @ GetSubstitution matched preceding following r
      else if c = CHR ''$'' \<and> d = CHR 0x60 then preceding @ GetSubstitution matched preceding following r
      else if c = CHR ''$'' \<and> d = CHR 0x27 then following @ GetSubstitution matched preceding following r
      else c # GetSubstitution matched preceding following (d # r))"

text \<open>
  \<^verbatim>\<open>String.prototype.replace\<close> with a pattern that is a string: the first occurrence is
  replaced, by the expansion of the replacement text.
\<close>

definition replace_str :: "string \<Rightarrow> string \<Rightarrow> string \<Rightarrow> string" where
  "replace_str searchString replaceValue s =
     (case indexOf s searchString of
        None \<Rightarrow> s
      | Some position \<Rightarrow>
          (let preceding = take position s;
               following = drop (position + length searchString) s
           in preceding @ GetSubstitution searchString preceding following replaceValue @ following))"

definition footerMarker :: string where
  "footerMarker = ''cid-tJkSLE66e9''"

definition googleTranslate :: regex where
  \<open>googleTranslate =
     lit ''<div id="google_translate_element"></div>'' @ [Lazy AnyChar] @
     lit ''<script src="'' @ [Lazy Dot] @ lit ''translate_a/element'' @ [Lazy Dot] @
     lit ''</script>''\<close>

definition footerSection :: regex where
  "footerSection =
     lit ''<section'' @ [Greedy (NoneOf ''>'')] @ lit ''cid-tJkSLE66e9'' @
     [Greedy (NoneOf ''>'')] @ lit ''>'' @ [Lazy AnyChar] @ lit ''</section>''"

text \<open>
  The template literal of \<^verbatim>\<open>processFile\<close>, line by line: the lines before the widget
  (the last one is the indentation of the widget) and the lines behind it (the first
  one is the rest of the line of the widget, the last one the closing body tag). The
  text is made of the lines with a line feed between them.
\<close>

definition headLines :: "string list" where
  \<open>headLines =
    ['''',
     ''<div style="text-align: center; padding: 8px; background: #f8f9fa; font-size: 0;">'',
     ''  <div style="display: inline-block; transform: scale(0.75); transform-origin: center;">'',
     ''    '']\<close>

definition tailLines :: "string list" where
  \<open>tailLines =
    ['''',
     ''  </div>'',
     ''</div>'',
     ''<style>'',
     ''  /* Force smaller Google Translate styling */'',
     ''  #google_translate_element {'',
     ''    zoom: 0.75 !important;'',
     ''    -moz-transform: scale(0.75) !important;'',
     ''    -webkit-transform: scale(0.75) !important;'',
     ''    transform: scale(0.75) !important;'',
     ''    font-size: 11px !important;'',
     ''    line-height: 1.2 !important;'',
     ''  }'',
     ''  '',
     ''  #google_translate_element * {'',
     ''    font-size: 11px !important;'',
     ''    max-height: 24px !important;'',
     ''  }'',
     ''  '',
     ''  #google_translate_element .goog-te-combo {'',
     ''    font-size: 10px !important;'',
     ''    padding: 1px 3px !important;'',
     ''    height: 20px !important;'',
     ''    border: 1px solid #ccc !important;'',
     ''  }'',
     ''  '',
     ''  #google_translate_element .goog-logo-link {'',
     ''    font-size: 9px !important;'',
     ''  }'',
     ''  '',
     ''  #google_translate_element img {'',
     ''    max-height: 12px !important;'',
     ''    max-width: 40px !important;'',
     ''    vertical-align: middle !important;'',
     ''  }'',
     ''  '',
     ''  /* Hide Google branding if too large */'',
     ''  .goog-logo-link img {'',
     ''    display: none !important;'',
     ''  }'',
     ''  '',
     ''  /* Delay styling to override Google'' @ [sq] @ ''s scripts */'',
     ''  .goog-te-gadget {'',
     ''    font-size: 0 !important;'',
     ''  }'',
     ''  '',
     ''  .goog-te-gadget > span {'',
     ''    font-size: 10px !important;'',
     ''  }'',
     ''</style>'',
     ''<script>'',
     ''  // Apply styling after Google Translate loads'',
     ''  setTimeout(function() {'',
     ''    const googleElements = document.querySelectorAll('' @ [sq] @ ''#google_translate_element, #google_translate_element *'' @ [sq] @ '');'',
     ''    googleElements.forEach(el => {'',
     ''      if (el.tagName === '' @ [sq] @ ''SELECT'' @ [sq] @ '') {'',
     ''        el.style.fontSize = '' @ [sq] @ ''10px'' @ [sq] @ '';'',
     ''        el.style.height = '' @ [sq] @ ''20px'' @ [sq] @ '';'',
     ''        el.style.padding = '' @ [sq] @ ''1px 3px'' @ [sq] @ '';'',
     ''      }'',
     ''      if (el.tagName === '' @ [sq] @ ''IMG'' @ [sq] @ '') {'',
     ''        el.style.maxHeight = '' @ [sq] @ ''12px'' @ [sq] @ '';'',
     ''        el.style.maxWidth = '' @ [sq] @ ''40px'' @ [sq] @ '';'',
     ''      }'',
     ''    });'',
     ''  }, 2000);'',
     ''</script>'',
     ''</body>'']\<close>

definition wrapHead :: string where
  "wrapHead = join ''\<newline>'' headLines"

definition wrapTail :: string where
  "wrapTail = join ''\<newline>'' tailLines"

definition wrapWidget :: "string \<Rightarrow> string" where
  "wrapWidget googleTranslateWidget = wrapHead @ googleTranslateWidget @ wrapTail"

text \<open>
  The text transformation of \<^verbatim>\<open>processFile\<close>: the new text and the flag
  \<^verbatim>\<open>changesMade\<close>.
\<close>

definition removeFooter :: "string \<Rightarrow> string \<times> bool" where
  "removeFooter content =
     (if str_includes content footerMarker
      then (let before' = content; content' = replace_g footerSection [] before'
            in (content', content' \<noteq> before'))
      else (content, False))"

definition processContent :: "string \<Rightarrow> string \<times> bool" where
  "processContent content =
     (let googleTranslateWidget =
            (case str_match googleTranslate content of Some w \<Rightarrow> w | None \<Rightarrow> []);
          (content1, changesMade) = removeFooter content;
          content2 =
            (if googleTranslateWidget \<noteq> [] \<and> changesMade
             then replace_str ''</body>'' (wrapWidget googleTranslateWidget) content1
             else content1)
      in (content2, changesMade))"

text \<open>
  \<^verbatim>\<open>processFile\<close> returns \<^verbatim>\<open>{ success: true, changed }\<close>, or
  \<^verbatim>\<open>{ success: false, error }\<close> when the body throws.
\<close>

datatype result = Success bool | Failure js_error

definition processFile :: "disk_file \<Rightarrow> nat \<Rightarrow> result \<times> run" where
  "processFile f processed =
     (case readFileSync f of
        Inl e \<Rightarrow> (Failure e, \<lparr>file_of = f, writes = [], processedFiles = processed\<rparr>)
      | Inr originalContent \<Rightarrow>
          (let (content, changesMade) = processContent originalContent
           in if changesMade
              then (case writeFileSync f content of
                      Inl e \<Rightarrow>
                        (Failure e, \<lparr>file_of = f, writes = [content], processedFiles = processed\<rparr>)
                    | Inr f' \<Rightarrow>
                        (Success True,
                         \<lparr>file_of = f', writes = [content], processedFiles = processed + 1\<rparr>))
              else (Success False, \<lparr>file_of = f, writes = [], processedFiles = processed\<rparr>)))"


section \<open>getAllHtmlFiles\<close>

text \<open>
  What the scanner sees of a directory is the list of its entries as
  \<^verbatim>\<open>fs.readdirSync(dir, { withFileTypes: true })\<close> returns them: a name and the kind of the
  entry itself. An entry that is a symbolic link (or a junction) is a link whatever it
  points to, so \<^verbatim>\<open>isDirectory()\<close> holds of directories only. The scanner is the same
  function in both classes, up to the order of the tests and the logging.

  \<open>readable\<close> tells of which directories \<^verbatim>\<open>readdirSync\<close> returns; of the others it throws,
  and the exception is caught. The paths of the scan are relative to the working
  directory \<open>cwd\<close>, and \<^verbatim>\<open>path.resolve\<close> makes them absolute.
\<close>

datatype dirent = RegularFile | SymbolicLink path | Directory "(string \<times> dirent) list"

fun isDirectory :: "dirent \<Rightarrow> bool" where
  "isDirectory (Directory items) = True"
| "isDirectory e = False"

definition resolve :: "path \<Rightarrow> path \<Rightarrow> path" where
  "resolve cwd dir = cwd @ dir"

definition skipped :: "string \<Rightarrow> bool" where
  "skipped name \<longleftrightarrow>
     prefix ''.'' name \<or> name = ''node_modules'' \<or> str_includes name ''backup'' \<or>
     name = ''hts-cache''"

fun getAllHtmlFiles ::
    "(path \<Rightarrow> bool) \<Rightarrow> path \<Rightarrow> path \<Rightarrow> (string \<times> dirent) list \<Rightarrow> path set \<Rightarrow>
      path list \<times> path set"
  and scanItems ::
    "(path \<Rightarrow> bool) \<Rightarrow> path \<Rightarrow> path \<Rightarrow> (string \<times> dirent) list \<Rightarrow> path set \<Rightarrow>
      path list \<times> path set"
where
  "getAllHtmlFiles readable cwd dir items visited =
     (let absDir = resolve cwd dir
      in if absDir \<in> visited then ([], visited)
         else if readable absDir then scanItems readable cwd dir items (insert absDir visited)
         else ([], insert absDir visited))"
| "scanItems readable cwd dir [] visited = ([], visited)"
| "scanItems readable cwd dir ((name, item) # rest) visited =
     (if skipped name then scanItems readable cwd dir rest visited
      else (case item of
              Directory sub \<Rightarrow>
                (let (found, visited') = getAllHtmlFiles readable cwd (dir @ [name]) sub visited;
                     (more, visited'') = scanItems readable cwd dir rest visited'
                 in (found @ more, visited''))
            | _ \<Rightarrow>
                (if suffix ''.html'' name
                 then (let (more, visited') = scanItems readable cwd dir rest visited
                       in ((dir @ [name]) # more, visited'))
                 else scanItems readable cwd dir rest visited)))"


text \<open>No directory lists a name twice.\<close>

fun distinct_names :: "(string \<times> dirent) list \<Rightarrow> bool"
  and distinct_entry :: "dirent \<Rightarrow> bool"
where
  "distinct_names items \<longleftrightarrow> distinct (map fst items) \<and> list_all (\<lambda>(name, e). distinct_entry e) items"
| "distinct_entry (Directory sub) = distinct_names sub"
| "distinct_entry e = True"


text \<open>
  For the claims about the scanner: \<open>leads_to items segs\<close> holds when the path \<open>segs\<close>
  leads through directories of the tree to an entry that is not a directory;
  \<open>included segs\<close> is what the filter asks of such a path; \<open>plain\<close> forgets where the
  symbolic links of a tree point to.
\<close>

fun leads_to :: "(string \<times> dirent) list \<Rightarrow> path \<Rightarrow> bool" where
  "leads_to items [] = False"
| "leads_to items [name] = list_ex (\<lambda>(n, e). n = name \<and> \<not> isDirectory e) items"
| "leads_to items (name # rest) =
     list_ex (\<lambda>(n, e). n = name \<and> (case e of Directory sub \<Rightarrow> leads_to sub rest | _ \<Rightarrow> False)) items"


definition included :: "path \<Rightarrow> bool" where
  "included segs \<longleftrightarrow> segs \<noteq> [] \<and> list_all (\<lambda>name. \<not> skipped name) segs \<and> suffix ''.html'' (last segs)"

text \<open>
  A tree for the examples: a site below \<^verbatim>\<open>/home/site\<close> with entries that the filter
  leaves out, and in \<^verbatim>\<open>pages\<close> a symbolic link back to the root of the site.
\<close>

definition mirror_tree :: "(string \<times> dirent) list" where
  "mirror_tree =
     [(''index.html'', RegularFile),
      (''notes.txt'', RegularFile),
      (''.git'', Directory [(''a.html'', RegularFile)]),
      (''node_modules'', Directory [(''pkg'', Directory [(''b.html'', RegularFile)])]),
      (''pages'', Directory
         [(''one.html'', RegularFile),
          (''old-backup-2020'', Directory [(''c.html'', RegularFile)]),
          (''up'', SymbolicLink [''home'', ''site'']),
          (''hts-cache'', Directory [(''d.html'', RegularFile)]),
          (''backup.html'', RegularFile)]),
      (''again.html'', SymbolicLink [''home'', ''site'', ''index.html''])]"

section \<open>The directory tree of the restructurer\<close>

text \<open>
  \<^verbatim>\<open>moveAndFixStructure\<close> works on the tree below \<^verbatim>\<open>sourceDir\<close>, a mirror made of
  regular files and directories. A directory lists its entries by name; paths are
  relative to \<^verbatim>\<open>sourceDir\<close>. The operations of \<^verbatim>\<open>fs\<close> follow POSIX: each returns the
  new tree, or the error that the call throws.
\<close>

datatype node = File string | Dir "(string \<times> node) list"

fun lookup :: "node \<Rightarrow> path \<Rightarrow> node option" where
  "lookup n [] = Some n"
| "lookup (File c) (x # p) = None"
| "lookup (Dir es) (x # p) = (case map_of es x of None \<Rightarrow> None | Some c \<Rightarrow> lookup c p)"

fun remove :: "path \<Rightarrow> node \<Rightarrow> node" where
  "remove [] n = n"
| "remove p (File c) = File c"
| "remove [x] (Dir es) = Dir (AList.delete x es)"
| "remove (x # p) (Dir es) =
     (case map_of es x of
        None \<Rightarrow> Dir es
      | Some c \<Rightarrow> Dir (AList.update x (remove p c) es))"

fun put :: "path \<Rightarrow> node \<Rightarrow> node \<Rightarrow> node" where
  "put [] new n = new"
| "put p new (File c) = File c"
| "put [x] new (Dir es) = Dir (AList.update x new es)"
| "put (x # p) new (Dir es) =
     (case map_of es x of
        None \<Rightarrow> Dir es
      | Some c \<Rightarrow> Dir (AList.update x (put p new c) es))"

definition existsSync :: "node \<Rightarrow> path \<Rightarrow> bool" where
  "existsSync fs p \<longleftrightarrow> lookup fs p \<noteq> None"

text \<open>\<^verbatim>\<open>fs.statSync(p).isDirectory()\<close>.\<close>

definition statIsDirectory :: "node \<Rightarrow> path \<Rightarrow> js_error + bool" where
  "statIsDirectory fs p =
     (case lookup fs p of
        None \<Rightarrow> Inl ENOENT
      | Some (File c) \<Rightarrow> Inr False
      | Some (Dir es) \<Rightarrow> Inr True)"

definition readFile :: "node \<Rightarrow> path \<Rightarrow> js_error + string" where
  "readFile fs p =
     (case lookup fs p of
        None \<Rightarrow> Inl ENOENT
      | Some (File c) \<Rightarrow> Inr c
      | Some (Dir es) \<Rightarrow> Inl EISDIR)"

definition readdirSync :: "node \<Rightarrow> path \<Rightarrow> js_error + string list" where
  "readdirSync fs p =
     (case lookup fs p of
        None \<Rightarrow> Inl ENOENT
      | Some (File c) \<Rightarrow> Inl ENOTDIR
      | Some (Dir es) \<Rightarrow> Inr (map fst es))"

definition unlinkSync :: "node \<Rightarrow> path \<Rightarrow> js_error + node" where
  "unlinkSync fs p =
     (case lookup fs p of
        None \<Rightarrow> Inl ENOENT
      | Some (Dir es) \<Rightarrow> Inl EISDIR
      | Some (File c) \<Rightarrow> Inr (remove p fs))"

definition rmdirSync :: "node \<Rightarrow> path \<Rightarrow> js_error + node" where
  "rmdirSync fs p =
     (case lookup fs p of
        None \<Rightarrow> Inl ENOENT
      | Some (File c) \<Rightarrow> Inl ENOTDIR
      | Some (Dir es) \<Rightarrow>
          (if p = [] then Inl EINVAL
           else if es = [] then Inr (remove p fs)
           else Inl ENOTEMPTY))"

text \<open>
  \<^verbatim>\<open>rename(2)\<close>: the old path must exist and the directory of the new path must be a
  directory; a directory is not moved below itself; an entry at the new path is
  replaced when it is a file and so is the old one, or when both are directories and
  the new one is empty.
\<close>

definition renameSync :: "node \<Rightarrow> path \<Rightarrow> path \<Rightarrow> js_error + node" where
  "renameSync fs oldPath newPath =
     (case lookup fs oldPath of
        None \<Rightarrow> Inl ENOENT
      | Some n \<Rightarrow>
          (if oldPath = [] \<or> newPath = [] then Inl EINVAL
           else case lookup fs (butlast newPath) of
             None \<Rightarrow> Inl ENOENT
           | Some (File c) \<Rightarrow> Inl ENOTDIR
           | Some (Dir parent) \<Rightarrow>
               (if oldPath = newPath then Inr fs
                else if strict_prefix oldPath newPath then Inl EINVAL
                else case (n, lookup fs newPath) of
                  (Dir es, Some (File c)) \<Rightarrow> Inl ENOTDIR
                | (File c, Some (Dir es)) \<Rightarrow> Inl EISDIR
                | (Dir es, Some (Dir es')) \<Rightarrow>
                    (if es' = [] then Inr (put newPath n (remove oldPath fs)) else Inl ENOTEMPTY)
                | _ \<Rightarrow> Inr (put newPath n (remove oldPath fs)))))"

section \<open>PathFixer.moveAndFixStructure\<close>

text \<open>\<^verbatim>\<open>String.prototype.toLowerCase\<close> on code units below 256.\<close>

definition lower :: "char \<Rightarrow> char" where
  "lower c =
     (let n = (of_char c :: nat)
      in if (65 \<le> n \<and> n \<le> 90) \<or> (192 \<le> n \<and> n \<le> 222 \<and> n \<noteq> 215)
         then char_of (n + 32) else c)"

definition toLowerCase :: "string \<Rightarrow> string" where
  "toLowerCase s = map lower s"

definition miraculesSubDir :: path where
  "miraculesSubDir = [''www.miracles-of-quran.com'']"

text \<open>The test of lines 183 to 185 on the text of the outer index.\<close>

definition looksLikeHTTrack :: "string \<Rightarrow> bool" where
  "looksLikeHTTrack outsideContent \<longleftrightarrow>
     str_includes (toLowerCase outsideContent) ''httrack'' \<or>
     str_includes (toLowerCase outsideContent) ''mirror'' \<or>
     str_includes outsideContent ''hts-log.txt''"

text \<open>
  The handling of the two index files (lines 172 to 206). The calls stand outside every
  \<^verbatim>\<open>try\<close>, so an error leaves \<^verbatim>\<open>moveAndFixStructure\<close>; the tree keeps what was done
  before.
\<close>

definition backupIndex :: "node \<Rightarrow> path \<Rightarrow> js_error option \<times> node" where
  "backupIndex fs backup =
     (case renameSync fs [''index.html''] backup of
        Inl e \<Rightarrow> (Some e, fs)
      | Inr fs1 \<Rightarrow>
          (case renameSync fs1 (miraculesSubDir @ [''index.html'']) [''index.html''] of
             Inl e \<Rightarrow> (Some e, fs1)
           | Inr fs2 \<Rightarrow> (None, fs2)))"

definition resolveIndexConflict :: "node \<Rightarrow> js_error option \<times> node" where
  "resolveIndexConflict fs =
     (let outsideIndex = [''index.html''];
          insideIndex = miraculesSubDir @ [''index.html'']
      in if existsSync fs outsideIndex \<and> existsSync fs insideIndex
         then (case readFile fs outsideIndex of
                 Inl e \<Rightarrow> (Some e, fs)
               | Inr outsideContent \<Rightarrow>
                   (case readFile fs insideIndex of
                      Inl e \<Rightarrow> (Some e, fs)
                    | Inr insideContent \<Rightarrow>
                        (if looksLikeHTTrack outsideContent
                         then backupIndex fs [''httrack-index.html'']
                         else backupIndex fs [''original-index.html''])))
         else (None, fs))"

text \<open>
  \<^verbatim>\<open>mergeDirectories\<close>. An error of a call leaves the function at once, and the tree
  keeps what was moved before. The first argument bounds the depth of the recursion:
  where it is used up the call stack of JavaScript overflows, which throws a
  \<^verbatim>\<open>RangeError\<close>. Errors of the final clean-up are caught.
\<close>

definition removeIfEmpty :: "node \<Rightarrow> path \<Rightarrow> node" where
  "removeIfEmpty fs p =
     (case readdirSync fs p of
        Inl e \<Rightarrow> fs
      | Inr items \<Rightarrow>
          (if length items = 0
           then (case rmdirSync fs p of Inl e \<Rightarrow> fs | Inr fs' \<Rightarrow> fs')
           else fs))"

definition replaceEntry :: "node \<Rightarrow> path \<Rightarrow> path \<Rightarrow> js_error option \<times> node" where
  "replaceEntry fs srcPath destPath =
     (case unlinkSync fs destPath of
        Inl e \<Rightarrow> (Some e, fs)
      | Inr fs1 \<Rightarrow>
          (case renameSync fs1 srcPath destPath of
             Inl e \<Rightarrow> (Some e, fs1)
           | Inr fs2 \<Rightarrow> (None, fs2)))"

definition moveEntry :: "node \<Rightarrow> path \<Rightarrow> path \<Rightarrow> js_error option \<times> node" where
  "moveEntry fs srcPath destPath =
     (case renameSync fs srcPath destPath of
        Inl e \<Rightarrow> (Some e, fs)
      | Inr fs' \<Rightarrow> (None, fs'))"

fun mergeDirectories :: "nat \<Rightarrow> node \<Rightarrow> path \<Rightarrow> path \<Rightarrow> js_error option \<times> node"
  and mergeItems :: "nat \<Rightarrow> node \<Rightarrow> path \<Rightarrow> path \<Rightarrow> string list \<Rightarrow> js_error option \<times> node"
where
  "mergeDirectories 0 fs src dest = (Some RangeError, fs)"
| "mergeDirectories (Suc stack) fs src dest =
     (case readdirSync fs src of
        Inl e \<Rightarrow> (Some e, fs)
      | Inr items \<Rightarrow>
          (case mergeItems stack fs src dest items of
             (Some e, fs') \<Rightarrow> (Some e, fs')
           | (None, fs') \<Rightarrow> (None, removeIfEmpty fs' src)))"
| "mergeItems stack fs src dest [] = (None, fs)"
| "mergeItems stack fs src dest (item # items) =
     (let srcPath = src @ [item];
          destPath = dest @ [item];
          step =
            (if existsSync fs destPath
             then (case statIsDirectory fs srcPath of
                     Inl e \<Rightarrow> (Some e, fs)
                   | Inr False \<Rightarrow> replaceEntry fs srcPath destPath
                   | Inr True \<Rightarrow>
                       (case statIsDirectory fs destPath of
                          Inl e \<Rightarrow> (Some e, fs)
                        | Inr True \<Rightarrow> mergeDirectories stack fs srcPath destPath
                        | Inr False \<Rightarrow> replaceEntry fs srcPath destPath))
             else moveEntry fs srcPath destPath)
      in case step of
           (Some e, fs') \<Rightarrow> (Some e, fs')
         | (None, fs') \<Rightarrow> mergeItems stack fs' src dest items)"

text \<open>
  The loop of lines 211 to 233 over the entries of the subdirectory: the body stands
  in a \<^verbatim>\<open>try\<close>, so an error is logged and the loop goes on with the tree as the failed
  step left it.
\<close>

definition moveItem :: "nat \<Rightarrow> node \<Rightarrow> string \<Rightarrow> node" where
  "moveItem stack fs item =
     (if item = ''index.html'' then fs
      else (let srcPath = miraculesSubDir @ [item];
                destPath = [item]
            in if existsSync fs destPath
               then (case statIsDirectory fs srcPath of
                       Inl e \<Rightarrow> fs
                     | Inr True \<Rightarrow> snd (mergeDirectories stack fs srcPath destPath)
                     | Inr False \<Rightarrow> snd (replaceEntry fs srcPath destPath))
               else snd (moveEntry fs srcPath destPath)))"

fun moveItems :: "nat \<Rightarrow> node \<Rightarrow> string list \<Rightarrow> node" where
  "moveItems stack fs [] = fs"
| "moveItems stack fs (item # items) = moveItems stack (moveItem stack fs item) items"

text \<open>
  \<^verbatim>\<open>moveAndFixStructure\<close> returns a boolean, or throws; with it comes the tree that the
  call leaves.
\<close>

definition moveAndFixStructure :: "nat \<Rightarrow> node \<Rightarrow> (js_error + bool) \<times> node" where
  "moveAndFixStructure stack fs =
     (if \<not> existsSync fs miraculesSubDir then (Inr False, fs)
      else (case resolveIndexConflict fs of
              (Some e, fs1) \<Rightarrow> (Inl e, fs1)
            | (None, fs1) \<Rightarrow>
                (case readdirSync fs1 miraculesSubDir of
                   Inl e \<Rightarrow> (Inl e, fs1)
                 | Inr items \<Rightarrow>
                     (Inr True, removeIfEmpty (moveItems stack fs1 items) miraculesSubDir))))"


text \<open>
  For the claim about the two index files: the name under which the outer index is
  kept, by the branch that the test of its text selects.
\<close>

definition backupName :: "string \<Rightarrow> string" where
  "backupName outsideContent =
     (if looksLikeHTTrack outsideContent then ''httrack-index.html'' else ''original-index.html'')"

section \<open>Notions for the claims about the footer removal\<close>

text \<open>
  The container element of the translation widget, the number of occurrences of a text
  in a text, and the two parts of the template of \<^verbatim>\<open>processFile\<close> without their last
  line: the text before the line of the widget, and the text between the line of the
  widget and the line of the closing body tag.
\<close>

definition container :: string where
  \<open>container = ''<div id="google_translate_element"></div>''\<close>

fun occurrences :: "string \<Rightarrow> string \<Rightarrow> nat" where
  "occurrences x [] = (if x = [] then 1 else 0)"
| "occurrences x (c # cs) = (if prefix x (c # cs) then 1 else 0) + occurrences x cs"

definition headBody :: string where
  "headBody = join ''\<newline>'' (butlast headLines)"

definition tailBody :: string where
  "tailBody = join ''\<newline>'' (butlast tailLines)"


text \<open>
  A page for the counterexample to the write-back claim: its first footer section ends
  inside a copy of the wrapped widget, and a second footer section is left open.
\<close>

definition echoTail :: string where
  \<open>echoTail = ''<section class="cid-tJkSLE66e9"><script src="translate_a/element"></script>''\<close>

definition echoHead :: string where
  "echoHead = container @ ''</section>''"

definition echoPage :: string where
  "echoPage = echoTail @ tailBody @ ''\<newline>'' @ wrapHead @ echoHead @ echoTail @ wrapTail"

text \<open>A file for the examples: a footer section with a relative link, and a paragraph.\<close>

definition small_page :: disk_file where
  \<open>small_page =
     \<lparr>text_of = ''<section class="cid-tJkSLE66e9"><a href="../x">x</a></section><p>y</p>'',
      read_error = None, write_error = None\<rparr>\<close>

section \<open>Matching and replacing: general facts\<close>

lemma rmatch_lit: "rmatch (lit x) s = (if prefix x s then Some (length x) else None)"
proof (induction x arbitrary: s)
  case Nil
  then show ?case by (simp add: lit_def)
next
  case (Cons a x)
  then show ?case by (cases s) (auto simp: lit_def)
qed

lemma rmatch_quoted:
  "rmatch (One (OneOf qs) # lit x) s =
     (if \<exists>q\<in>set qs. prefix (q # x) s then Some (Suc (length x)) else None)"
  by (cases s) (auto simp: rmatch_lit)

lemma replace_g_miss:
  "rmatch re (c # cs) = None \<Longrightarrow> replace_g re rep (c # cs) = c # replace_g re rep cs"
  by (simp add: replace_g.simps)

lemma replace_g_hit:
  "rmatch re s = Some n \<Longrightarrow> 0 < n \<Longrightarrow> replace_g re rep s = rep @ replace_g re rep (drop n s)"
  by (simp add: replace_g.simps)

lemma replace_g_end: "rmatch re [] = None \<Longrightarrow> replace_g re rep [] = []"
  by (simp add: replace_g.simps)

lemma str_includes_iff: "str_includes s x \<longleftrightarrow> (\<exists>t. suffix t s \<and> prefix x t)"
proof (induction s)
  case Nil
  then show ?case by auto
next
  case (Cons c s)
  show ?case
  proof
    assume "str_includes (c # s) x"
    then consider "prefix x (c # s)" | "str_includes s x" by auto
    then show "\<exists>t. suffix t (c # s) \<and> prefix x t"
    proof cases
      case 1
      then show ?thesis by blast
    next
      case 2
      then obtain t where "suffix t s" "prefix x t" using Cons.IH by blast
      then show ?thesis by (meson suffix_Cons)
    qed
  next
    assume "\<exists>t. suffix t (c # s) \<and> prefix x t"
    then obtain t where t: "suffix t (c # s)" "prefix x t" by blast
    then show "str_includes (c # s) x"
      using Cons.IH by (auto simp: suffix_Cons)
  qed
qed

lemma replace_g_none:
  assumes "\<And>t. suffix t s \<Longrightarrow> rmatch re t = None"
  shows "replace_g re rep s = s"
  using assms
proof (induction s)
  case Nil
  then show ?case by (simp add: replace_g_end)
next
  case (Cons c s)
  have "rmatch re (c # s) = None" using Cons.prems by simp
  moreover have "replace_g re rep s = s"
    using Cons.IH Cons.prems by (simp add: suffix_Cons)
  ultimately show ?case by (simp add: replace_g_miss)
qed

lemma replace_lit_none:
  assumes "\<not> str_includes s x"
  shows "replace_g (lit x) rep s = s"
proof (rule replace_g_none)
  fix t assume "suffix t s"
  then have "\<not> prefix x t" using assms str_includes_iff by blast
  then show "rmatch (lit x) t = None" by (simp add: rmatch_lit)
qed

lemma replace_quoted_none:
  assumes "\<forall>q\<in>set qs. \<not> str_includes s (q # x)"
  shows "replace_g (One (OneOf qs) # lit x) rep s = s"
proof (rule replace_g_none)
  fix t assume "suffix t s"
  then have "\<forall>q\<in>set qs. \<not> prefix (q # x) t" using assms str_includes_iff by blast
  then show "rmatch (One (OneOf qs) # lit x) t = None" by (simp add: rmatch_quoted)
qed


lemma str_includes_prefix: "prefix x s \<Longrightarrow> str_includes s x"
  by (cases s) auto

lemma str_includes_Cons_D: "\<not> str_includes (c # s) x \<Longrightarrow> \<not> prefix x (c # s) \<and> \<not> str_includes s x"
  by simp


lemma parent_skip:
  assumes "\<not> str_includes p ''../''"
  shows "replace_g parentToken rep (p @ ''../'' @ t) = p @ rep @ replace_g parentToken rep t"
  using assms
proof (induction p)
  case Nil
  have "rmatch parentToken (''../'' @ t) = Some 3"
    by (simp add: parentToken_def rmatch_lit)
  then show ?case using replace_g_hit [of parentToken "''../'' @ t" 3 rep] by simp
next
  case (Cons c p)
  have np: "\<not> prefix ''../'' (c # p)" and ni: "\<not> str_includes p ''../''"
    using Cons.prems by auto
  have "\<not> prefix ''../'' (c # p @ ''../'' @ t)"
  proof (cases p)
    case Nil
    then show ?thesis by simp
  next
    case (Cons d p')
    then show ?thesis using np by (cases p') auto
  qed
  then have "rmatch parentToken (c # p @ ''../'' @ t) = None"
    by (simp add: parentToken_def rmatch_lit)
  then show ?case using Cons.IH [OF ni] by (simp add: replace_g_miss)
qed

lemma parent_join:
  assumes "pieces \<noteq> []" and "\<forall>p\<in>set pieces. \<not> str_includes p ''../''"
  shows "replace_g parentToken rep (join ''../'' pieces) = join rep pieces"
  using assms
proof (induction pieces rule: induct_list012)
  case 1
  then show ?case by simp
next
  case (2 p)
  then show ?case by (simp add: replace_lit_none parentToken_def)
next
  case (3 p q ps)
  then show ?case using parent_skip [of p rep "join ''../'' (q # ps)"] by simp
qed

lemma relative_append: "relative r (r @ segs) = segs"
  by (induction r) simp_all

lemma depth_of_below: "segs \<noteq> [] \<Longrightarrow> depth_of r (r @ segs) = length segs - 1"
  by (simp add: depth_of_def relative_append split_sep_def)

lemma fixPathsInHtml_text:
  assumes "read_error f = None" and "write_error f = None"
  shows "text_of (file_of (fixPathsInHtml fp rp f n)) = fixContent (depth_of rp fp) (text_of f)"
  using assms by (simp add: fixPathsInHtml_def readFileSync_def writeFileSync_def Let_def)




lemma fixDomain_none:
  assumes "\<not> str_includes s (dq # ''/www.miracles-of-quran.com/'')"
    and "\<not> str_includes s (sq # ''/www.miracles-of-quran.com/'')"
    and "\<not> str_includes s (dq # ''www.miracles-of-quran.com/'')"
    and "\<not> str_includes s (sq # ''www.miracles-of-quran.com/'')"
  shows "fixDomain s = s"
proof -
  have a: "fixAbsolute s = s"
    unfolding fixAbsolute_def absoluteDomain_def using assms(1,2)
    by (intro replace_quoted_none) simp
  have b: "fixBare s = s"
    unfolding fixBare_def bareDomain_def using assms(3,4)
    by (intro replace_quoted_none) simp
  have "\<not> str_includes s (''href='' @ dq # ''www.miracles-of-quran.com/'')"
  proof
    assume "str_includes s (''href='' @ dq # ''www.miracles-of-quran.com/'')"
    then obtain t where t: "suffix t s" "prefix (''href='' @ dq # ''www.miracles-of-quran.com/'') t"
      using str_includes_iff by blast
    then obtain r where "t = ''href='' @ (dq # ''www.miracles-of-quran.com/'') @ r"
      by (auto simp: prefix_def)
    then have "suffix ((dq # ''www.miracles-of-quran.com/'') @ r) s"
      using t(1) by (metis suffix_appendD)
    then show False using assms(3) str_includes_iff by (meson prefixI)
  qed
  then have c: "fixHref s = s"
    unfolding fixHref_def hrefDomain_def by (intro replace_lit_none) simp
  have "\<not> str_includes s (''src='' @ dq # ''www.miracles-of-quran.com/'')"
  proof
    assume "str_includes s (''src='' @ dq # ''www.miracles-of-quran.com/'')"
    then obtain t where t: "suffix t s" "prefix (''src='' @ dq # ''www.miracles-of-quran.com/'') t"
      using str_includes_iff by blast
    then obtain r where "t = ''src='' @ (dq # ''www.miracles-of-quran.com/'') @ r"
      by (auto simp: prefix_def)
    then have "suffix ((dq # ''www.miracles-of-quran.com/'') @ r) s"
      using t(1) by (metis suffix_appendD)
    then show False using assms(3) str_includes_iff by (meson prefixI)
  qed
  then have d: "fixSrc s = s"
    unfolding fixSrc_def srcDomain_def by (intro replace_lit_none) simp
  show ?thesis by (simp add: fixDomain_def a b c d)
qed


lemma fixRelative_none: "\<not> str_includes s ''../'' \<Longrightarrow> fixRelative d s = s"
  by (simp add: fixRelative_def parentToken_def replace_lit_none)

lemma removeFooter_none: "\<not> str_includes s footerMarker \<Longrightarrow> removeFooter s = (s, False)"
  by (simp add: removeFooter_def)

lemma processContent_none: "\<not> str_includes s footerMarker \<Longrightarrow> processContent s = (s, False)"
  by (simp add: processContent_def removeFooter_none Let_def)

section \<open>Facts about the scanner\<close>

lemma leads_to_Cons_dir:
  "leads_to sub rest \<Longrightarrow> leads_to ((name, Directory sub) # items) (name # rest)"
  by (cases rest) auto

lemma leads_to_tail: "leads_to items segs \<Longrightarrow> leads_to (x # items) segs"
  by (induction "x # items" segs rule: leads_to.induct) auto


lemma leads_to_here:
  "\<not> isDirectory item \<Longrightarrow> leads_to ((name, item) # rest) [name]"
  by simp

lemma scan_paths:
  "p \<in> set (fst (getAllHtmlFiles readable cwd dir items visited)) \<Longrightarrow>
     \<exists>segs. p = dir @ segs \<and> included segs \<and> leads_to items segs"
  "p \<in> set (fst (scanItems readable cwd dir items visited)) \<Longrightarrow>
     \<exists>segs. p = dir @ segs \<and> included segs \<and> leads_to items segs"
proof (induction readable cwd dir items visited and readable cwd dir items visited
    rule: getAllHtmlFiles_scanItems.induct)
  case (1 readable cwd dir items visited)
  then show ?case by (auto simp: Let_def split: if_splits)
next
  case (2 readable cwd dir visited)
  then show ?case by simp
next
  case (3 readable cwd dir name item rest visited)
  have tail: "\<exists>segs. p = dir @ segs \<and> included segs \<and> leads_to ((name, item) # rest) segs"
    if "\<exists>segs. p = dir @ segs \<and> included segs \<and> leads_to rest segs"
    using that leads_to_tail by blast
  have here: "\<exists>segs. p = dir @ segs \<and> included segs \<and> leads_to ((name, item) # rest) segs"
    if "p = dir @ [name]" "\<not> skipped name" "suffix ''.html'' name" "\<not> isDirectory item"
    using that by (intro exI [of _ "[name]"]) (simp add: included_def)
  show ?case
  proof (cases "skipped name")
    case True
    then have "p \<in> set (fst (scanItems readable cwd dir rest visited))" using "3.prems" by simp
    then show ?thesis using "3.IH"(1) True tail by blast
  next
    case False
    show ?thesis
    proof (cases item)
      case (Directory sub)
      obtain found v1 where f: "getAllHtmlFiles readable cwd (dir @ [name]) sub visited = (found, v1)"
        by force
      obtain more v2 where m: "scanItems readable cwd dir rest v1 = (more, v2)" by force
      have "p \<in> set found \<or> p \<in> set more"
        using "3.prems" False Directory f m by simp
      then show ?thesis
      proof
        assume "p \<in> set found"
        then obtain segs where s: "p = (dir @ [name]) @ segs" "included segs" "leads_to sub segs"
          using "3.IH"(6) [OF False Directory] f by auto
        have "included (name # segs)" using s(2) False by (auto simp: included_def)
        moreover have "leads_to ((name, item) # rest) (name # segs)"
          using s(3) Directory leads_to_Cons_dir by simp
        ultimately show ?thesis using s(1) by (intro exI [of _ "name # segs"]) simp
      next
        assume "p \<in> set more"
        then have "\<exists>segs. p = dir @ segs \<and> included segs \<and> leads_to rest segs"
          using "3.IH"(7) [OF False Directory refl f [symmetric]] m by auto
        then show ?thesis by (rule tail)
      qed
    next
      case RegularFile
      show ?thesis
      proof (cases "suffix ''.html'' name")
        case True
        obtain more v2 where m: "scanItems readable cwd dir rest visited = (more, v2)" by force
        have "p = dir @ [name] \<or> p \<in> set more"
          using "3.prems" False RegularFile True m by simp
        then show ?thesis
          using "3.IH"(2) [OF False RegularFile True] m here [OF _ False True] tail RegularFile
          by auto
      next
        case no: False
        then have "p \<in> set (fst (scanItems readable cwd dir rest visited))"
          using "3.prems" False RegularFile by simp
        then show ?thesis using "3.IH"(3) [OF False RegularFile no] tail by blast
      qed
    next
      case (SymbolicLink t)
      show ?thesis
      proof (cases "suffix ''.html'' name")
        case True
        obtain more v2 where m: "scanItems readable cwd dir rest visited = (more, v2)" by force
        have "p = dir @ [name] \<or> p \<in> set more"
          using "3.prems" False SymbolicLink True m by simp
        then show ?thesis
          using "3.IH"(4) [OF False SymbolicLink True] m here [OF _ False True] tail SymbolicLink
          by auto
      next
        case no: False
        then have "p \<in> set (fst (scanItems readable cwd dir rest visited))"
          using "3.prems" False SymbolicLink by simp
        then show ?thesis using "3.IH"(5) [OF False SymbolicLink no] tail by blast
      qed
    qed
  qed
qed





section \<open>Facts about the restructurer\<close>

lemma backupIndex_ok:
  assumes "lookup fs [''index.html''] = Some (File outer)"
    and "lookup fs (miraculesSubDir @ [''index.html'']) = Some (File inner)"
    and "b \<noteq> ''index.html''" and "[b] \<noteq> miraculesSubDir"
    and "\<forall>es. lookup fs [b] \<noteq> Some (Dir es)"
  shows "\<exists>fs'. backupIndex fs [b] = (None, fs') \<and> lookup fs' [b] = Some (File outer) \<and>
           lookup fs' [''index.html''] = Some (File inner) \<and>
           lookup fs' (miraculesSubDir @ [''index.html'']) = None"
proof -
  obtain es where fs: "fs = Dir es" using assms(1) by (cases fs) auto
  have o: "map_of es ''index.html'' = Some (File outer)" using assms(1) fs by (simp split: option.splits)
  obtain sub where s: "map_of es ''www.miracles-of-quran.com'' = Some (Dir sub)"
      and i: "map_of sub ''index.html'' = Some (File inner)"
    using assms(2) fs
    by (auto simp: miraculesSubDir_def split: option.splits elim: lookup.elims)
  have bS: "b \<noteq> ''www.miracles-of-quran.com''" using assms(4) by (simp add: miraculesSubDir_def)
  have nb: "map_of es b = None \<or> (\<exists>c. map_of es b = Some (File c))"
    using assms(5) fs by (cases "map_of es b") (auto, metis node.exhaust)
  define es1 where "es1 = AList.update b (File outer) (AList.delete ''index.html'' es)"
  have r1: "renameSync fs [''index.html''] [b] = Inr (Dir es1)"
    using o nb assms(3) fs
    by (auto simp: renameSync_def es1_def split: option.splits node.splits)
  define es2 where "es2 = AList.update ''index.html'' (File inner)
      (AList.update ''www.miracles-of-quran.com'' (Dir (AList.delete ''index.html'' sub)) es1)"
  have m1: "map_of es1 ''www.miracles-of-quran.com'' = Some (Dir sub)"
    using s bS by (simp add: es1_def update_conv' delete_conv')
  have m2: "map_of es1 ''index.html'' = None"
    using assms(3) by (simp add: es1_def update_conv' delete_conv')
  have r2: "renameSync (Dir es1) (miraculesSubDir @ [''index.html'']) [''index.html''] = Inr (Dir es2)"
    using m1 m2 i
    by (simp add: renameSync_def miraculesSubDir_def es2_def)
  have "backupIndex fs [b] = (None, Dir es2)" by (simp add: backupIndex_def r1 r2)
  moreover have "lookup (Dir es2) [b] = Some (File outer)"
    using assms(3) bS by (simp add: es2_def es1_def update_conv' delete_conv')
  moreover have "lookup (Dir es2) [''index.html''] = Some (File inner)"
    by (simp add: es2_def update_conv')
  moreover have "lookup (Dir es2) (miraculesSubDir @ [''index.html'']) = None"
    by (simp add: es2_def miraculesSubDir_def update_conv' delete_conv')
  ultimately show ?thesis by blast
qed

section \<open>Facts about occurrences\<close>

lemma str_includes_append1: "str_includes a x \<Longrightarrow> str_includes (a @ b) x"
proof (induction a)
  case Nil
  then show ?case by (cases b) auto
next
  case (Cons c a)
  from Cons.prems consider "prefix x (c # a)" | "str_includes a x" by auto
  then show ?case
  proof cases
    case 1
    then have "prefix x ((c # a) @ b)" by (rule prefix_prefix)
    then show ?thesis by simp
  next
    case 2
    then show ?thesis using Cons.IH by simp
  qed
qed

lemma str_includes_set: "str_includes s x \<Longrightarrow> set x \<subseteq> set s"
proof -
  assume "str_includes s x"
  then obtain t where "suffix t s" "prefix x t" using str_includes_iff by blast
  then show ?thesis by (meson set_mono_prefix set_mono_suffix subset_trans)
qed

lemma absent_char: "c \<in> set x \<Longrightarrow> c \<notin> set s \<Longrightarrow> \<not> str_includes s x"
  using str_includes_set by blast

lemma prefix_sep:
  assumes "c \<notin> set x"
  shows "prefix x (u @ c # b) \<longleftrightarrow> prefix x u"
proof
  assume "prefix x (u @ c # b)"
  then consider "prefix x u" | us where "x = u @ us" "prefix us (c # b)"
    unfolding prefix_append by blast
  then show "prefix x u"
  proof cases
    case 1
    then show ?thesis .
  next
    case 2
    then have "us = []" using assms by (cases us) auto
    then show ?thesis using 2(1) by simp
  qed
next
  assume "prefix x u"
  then show "prefix x (u @ c # b)" by (simp add: prefix_prefix)
qed

lemma occurrences_sep:
  assumes "c \<notin> set x" and "x \<noteq> []"
  shows "occurrences x (a @ c # b) = occurrences x a + occurrences x b"
proof (induction a)
  case Nil
  have "\<not> prefix x (c # b)" using assms by (cases x) auto
  then show ?case using assms(2) by simp
next
  case (Cons d a)
  have "prefix x (d # a @ c # b) \<longleftrightarrow> prefix x (d # a)"
    using prefix_sep [OF assms(1), of "d # a" b] by simp
  then show ?case using Cons by simp
qed

lemma occurrences_skip: "x \<noteq> [] \<Longrightarrow> hd x \<noteq> c \<Longrightarrow> occurrences x (c # s) = occurrences x s"
  by (cases x) auto

lemma occurrences_zero: "x \<noteq> [] \<Longrightarrow> occurrences x s = 0 \<longleftrightarrow> \<not> str_includes s x"
  by (induction s) auto

lemma occurrences_sep_hd:
  assumes "b \<noteq> []" and "hd b \<notin> set x" and "x \<noteq> []"
  shows "occurrences x (a @ b) = occurrences x a + occurrences x b"
proof -
  obtain c b' where b: "b = c # b'" using assms(1) by (cases b) auto
  then have c: "c \<notin> set x" using assms(2) by simp
  have "hd x \<noteq> c" using c assms(3) by (cases x) auto
  then have "occurrences x (c # b') = occurrences x b'" using assms(3) by (intro occurrences_skip)
  then have "occurrences x b = occurrences x b'" using b by simp
  then show ?thesis using occurrences_sep [OF c assms(3)] b by simp
qed

lemma GetSubstitution_plain:
  "CHR ''$'' \<notin> set r \<Longrightarrow> GetSubstitution matched preceding following r = r"
  by (induction matched preceding following r rule: GetSubstitution.induct) auto




section \<open>Facts about the template\<close>

text \<open>Rules that decide a prefix at the first character that differs.\<close>

lemma prefix_if: "prefix (x # xs) (y # ys) = (if x = y then prefix xs ys else False)"
  by simp

lemma str_includes_if:
  "str_includes (c # cs) n = (if prefix n (c # cs) then True else str_includes cs n)"
  by simp

lemma join_snoc: "ls \<noteq> [] \<Longrightarrow> join sep (ls @ [l]) = join sep ls @ sep @ l"
  by (induction ls rule: induct_list012) auto

lemma set_join: "set (join sep ls) \<subseteq> set sep \<union> \<Union> (set ` set ls)"
  by (induction ls rule: induct_list012) auto

lemma join_absent: "c \<notin> set sep \<Longrightarrow> list_all (\<lambda>l. c \<notin> set l) ls \<Longrightarrow> c \<notin> set (join sep ls)"
  using set_join [of sep ls] by (auto simp: list_all_iff)

lemma occurrences_join:
  assumes "c \<notin> set x" and "x \<noteq> []"
  shows "occurrences x (join [c] ls) = sum_list (map (occurrences x) ls)"
proof (induction ls rule: induct_list012)
  case 1
  then show ?case using assms(2) by simp
next
  case (2 l)
  then show ?case by simp
next
  case (3 l q ps)
  then show ?case using occurrences_sep [OF assms, of l "join [c] (q # ps)"] by simp
qed

lemma join_excludes:
  assumes "c \<notin> set x" and "x \<noteq> []" and "list_all (\<lambda>l. \<not> str_includes l x) ls"
  shows "\<not> str_includes (join [c] ls) x"
proof -
  have "sum_list (map (occurrences x) ls) = 0"
    using assms(2,3) by (induction ls) (auto simp: occurrences_zero)
  then have "occurrences x (join [c] ls) = 0"
    using occurrences_join [OF assms(1,2), of ls] by simp
  then show ?thesis using occurrences_zero [OF assms(2)] by blast
qed

lemma headLines_split: "headLines = butlast headLines @ [''    ''] \<and> butlast headLines \<noteq> []"
  by (simp add: headLines_def)

lemma tailLines_split: "tailLines = butlast tailLines @ [''</body>''] \<and> butlast tailLines \<noteq> []"
  by (simp add: tailLines_def)

lemma wrapHead_split: "wrapHead = headBody @ CHR 0x0A # ''    ''"
proof -
  have "join ''\<newline>'' (butlast headLines @ [''    '']) = headBody @ ''\<newline>'' @ ''    ''"
    unfolding headBody_def using headLines_split by (intro join_snoc) simp
  then show ?thesis using headLines_split by (simp add: wrapHead_def)
qed

lemma wrapTail_split: "wrapTail = tailBody @ CHR 0x0A # ''</body>''"
proof -
  have "join ''\<newline>'' (butlast tailLines @ [''</body>'']) = tailBody @ ''\<newline>'' @ ''</body>''"
    unfolding tailBody_def using tailLines_split by (intro join_snoc) simp
  then show ?thesis using tailLines_split by (simp add: wrapTail_def)
qed

lemma join_hd: "hd (join [c] ([] # q # ps)) = c \<and> join [c] ([] # q # ps) \<noteq> []"
  by simp


lemma tailBody_hd: "tailBody \<noteq> [] \<and> hd tailBody = CHR 0x0A"
proof -
  obtain q ps where "butlast tailLines = [] # q # ps" by (simp add: tailLines_def)
  then show ?thesis using join_hd [of "CHR 0x0A" q ps] by (simp add: tailBody_def)
qed

lemma headLines_plain: "list_all (\<lambda>l. CHR ''$'' \<notin> set l) headLines"
  by (simp add: headLines_def)

lemma tailLines_plain: "list_all (\<lambda>l. CHR ''$'' \<notin> set l) tailLines"
  by (simp add: tailLines_def sq_def)

lemma template_plain: "CHR ''$'' \<notin> set wrapHead \<and> CHR ''$'' \<notin> set wrapTail"
  using headLines_plain tailLines_plain by (simp add: wrapHead_def wrapTail_def join_absent)

lemma list_all_butlast: "list_all P ls \<Longrightarrow> list_all P (butlast ls)"
  by (auto simp: list_all_iff dest: in_set_butlastD)



lemma headLines_container: "list_all (\<lambda>l. \<not> str_includes l container) headLines"
  by (simp add: headLines_def container_def prefix_if str_includes_if
      del: Cons_prefix_Cons str_includes.simps(2))

lemma tailLines_container: "list_all (\<lambda>l. \<not> str_includes l container) tailLines"
  by (simp add: tailLines_def container_def sq_def prefix_if str_includes_if
      del: Cons_prefix_Cons str_includes.simps(2))


lemma template_container:
  "\<not> str_includes headBody container" "\<not> str_includes tailBody container"
proof -
  have x: "CHR 0x0A \<notin> set container" "container \<noteq> []"
    by (simp_all add: container_def)
  show "\<not> str_includes headBody container"
    unfolding headBody_def by (rule join_excludes [OF x list_all_butlast [OF headLines_container]])
  show "\<not> str_includes tailBody container"
    unfolding tailBody_def by (rule join_excludes [OF x list_all_butlast [OF tailLines_container]])
qed


lemma container_facts:
  "container \<noteq> [] \<and> CHR 0x0A \<notin> set container \<and> hd container \<noteq> CHR '' '' \<and>
   CHR 0x22 \<in> set container \<and> CHR ''_'' \<in> set container"
  by (simp add: container_def)



section \<open>Facts about the matcher\<close>

lemma rmatch_lit_append:
  "rmatch (lit x @ r) s =
     (if prefix x s then map_option (\<lambda>n. length x + n) (rmatch r (drop (length x) s)) else None)"
proof (induction x arbitrary: s)
  case Nil
  show ?case by (cases "rmatch r s") (simp_all add: lit_def)
next
  case (Cons a x)
  show ?case
  proof (cases s)
    case Nil
    then show ?thesis by (simp add: lit_def)
  next
    case (Cons c cs)
    then show ?thesis
      using Cons.IH [of cs] by (auto simp: lit_def option.map_comp comp_def)
  qed
qed

text \<open>A match of a pattern ends with a match of the end of the pattern.\<close>

lemma rmatch_split:
  "rmatch re s = Some n \<Longrightarrow> re = r1 @ r2 \<Longrightarrow>
     \<exists>k m. n = k + m \<and> k \<le> length s \<and> rmatch r2 (drop k s) = Some m"
proof (induction re s arbitrary: n r1 rule: rmatch.induct)
  case (1 s)
  then show ?case by (intro exI [of _ 0] exI [of _ n]) simp
next
  case (2 k r)
  from "2.prems"(1) show ?case by simp
next
  case (3 k r c cs)
  show ?case
  proof (cases r1)
    case Nil
    then show ?thesis using "3.prems" by (intro exI [of _ 0] exI [of _ n]) simp
  next
    case (Cons i r1')
    then have r: "r = r1' @ r2" using "3.prems"(2) by simp
    obtain n' where a: "accepts k c" and n': "rmatch r cs = Some n'" "n = Suc n'"
      using "3.prems"(1) by (auto split: if_splits)
    obtain j m where "n' = j + m" "j \<le> length cs" "rmatch r2 (drop j cs) = Some m"
      using "3.IH" [OF a n'(1) r] by blast
    then show ?thesis using n'(2) by (intro exI [of _ "Suc j"] exI [of _ m]) simp
  qed
next
  case (4 k r)
  show ?case
  proof (cases r1)
    case Nil
    then show ?thesis using "4.prems" by (intro exI [of _ 0] exI [of _ n]) simp
  next
    case (Cons i r1')
    then have r: "r = r1' @ r2" using "4.prems"(2) by simp
    have "rmatch r [] = Some n" using "4.prems"(1) by simp
    then show ?thesis using "4.IH" [OF _ r] by simp
  qed
next
  case (5 k r c cs)
  show ?case
  proof (cases r1)
    case Nil
    then show ?thesis using "5.prems" by (intro exI [of _ 0] exI [of _ n]) simp
  next
    case (Cons i r1')
    then have r: "r = r1' @ r2" and i: "Lazy k # r = (Lazy k # r1') @ r2"
      using "5.prems"(2) by simp_all
    show ?thesis
    proof (cases "rmatch r (c # cs)")
      case (Some n0)
      then have "n0 = n" using "5.prems"(1) by simp
      then show ?thesis using "5.IH"(1) [OF _ r] Some by simp
    next
      case None
      then obtain n' where a: "accepts k c" and n': "rmatch (Lazy k # r) cs = Some n'" "n = Suc n'"
        using "5.prems"(1) by (auto split: if_splits)
      obtain j m where "n' = j + m" "j \<le> length cs" "rmatch r2 (drop j cs) = Some m"
        using "5.IH"(2) [OF None a n'(1) i] by blast
      then show ?thesis using n'(2) by (intro exI [of _ "Suc j"] exI [of _ m]) simp
    qed
  qed
next
  case (6 k r)
  show ?case
  proof (cases r1)
    case Nil
    then show ?thesis using "6.prems" by (intro exI [of _ 0] exI [of _ n]) simp
  next
    case (Cons i r1')
    then have r: "r = r1' @ r2" using "6.prems"(2) by simp
    have "rmatch r [] = Some n" using "6.prems"(1) by simp
    then show ?thesis using "6.IH" [OF _ r] by simp
  qed
next
  case (7 k r c cs)
  show ?case
  proof (cases r1)
    case Nil
    then show ?thesis using "7.prems" by (intro exI [of _ 0] exI [of _ n]) simp
  next
    case (Cons i r1')
    then have r: "r = r1' @ r2" and i: "Greedy k # r = (Greedy k # r1') @ r2"
      using "7.prems"(2) by simp_all
    show ?thesis
    proof (cases "accepts k c")
      case False
      then have "rmatch r (c # cs) = Some n" using "7.prems"(1) by simp
      then show ?thesis using "7.IH"(3) [OF False _ r] by simp
    next
      case True
      show ?thesis
      proof (cases "rmatch (Greedy k # r) cs")
        case None
        then have "rmatch r (c # cs) = Some n" using "7.prems"(1) True by simp
        then show ?thesis using "7.IH"(2) [OF True None _ r] by simp
      next
        case (Some n')
        then have n: "n = Suc n'" using "7.prems"(1) True by simp
        obtain j m where "n' = j + m" "j \<le> length cs" "rmatch r2 (drop j cs) = Some m"
          using "7.IH"(1) [OF True Some i] by blast
        then show ?thesis using n by (intro exI [of _ "Suc j"] exI [of _ m]) simp
      qed
    qed
  qed
qed

lemma rmatch_ends_with:
  assumes "rmatch (r @ lit z) s = Some n"
  shows "str_includes s z"
proof -
  obtain k m where "k \<le> length s" "rmatch (lit z) (drop k s) = Some m"
    using rmatch_split [OF assms refl] by blast
  then have "prefix z (drop k s)" by (simp add: rmatch_lit split: if_splits)
  moreover have "suffix (drop k s) s" by (rule suffix_drop)
  ultimately show ?thesis using str_includes_iff by blast
qed

text \<open>Where a text occurs first.\<close>

lemma no_early_prefix:
  assumes "\<not> str_includes (a @ take (length x - 1) b) x" and "k < length a"
  shows "\<not> prefix x (drop k a @ b)"
proof
  assume p: "prefix x (drop k a @ b)"
  define d where "d = drop k a"
  have d: "d \<noteq> []" using assms(2) by (simp add: d_def)
  have "prefix x (d @ take (length x - 1) b)"
  proof (cases "length x \<le> length d")
    case True
    have "prefix x d" using p True unfolding d_def [symmetric] prefix_append
      by (auto simp: prefix_def)
    then show ?thesis by (rule prefix_prefix)
  next
    case False
    then obtain us where us: "x = d @ us" "prefix us b"
      using p unfolding d_def [symmetric] prefix_append by (auto dest: prefix_length_le)
    have "length us \<le> length x - 1" using us(1) d by (cases d) auto
    then have "prefix us (take (length x - 1) b)"
      using us(2) by (auto simp: prefix_def)
    then show ?thesis using us(1) by simp
  qed
  moreover have "suffix (d @ take (length x - 1) b) (a @ take (length x - 1) b)"
    unfolding d_def by (intro suffixI [of _ "take k a"]) simp
  ultimately show False using assms(1) str_includes_iff by blast
qed

lemma first_at:
  assumes "\<not> str_includes (a @ butlast x) x" and "x \<noteq> []" and "k < length a"
  shows "\<not> prefix x (drop k a @ x @ b)"
proof -
  have "take (length x - 1) (x @ b) = butlast x" using assms(2) by (simp add: butlast_conv_take)
  then show ?thesis using no_early_prefix [of a x "x @ b" k] assms(1,3) by simp
qed

lemma lazy_any_lit:
  assumes "\<not> str_includes (a @ butlast z) z" and "z \<noteq> []"
  shows "rmatch (Lazy AnyChar # lit z) (a @ z @ b) = Some (length a + length z)"
  using assms(1)
proof (induction a)
  case Nil
  have "rmatch (lit z) (z @ b) = Some (length z)" by (simp add: rmatch_lit)
  then show ?case using assms(2) by (cases z) simp_all
next
  case (Cons c a)
  have "\<not> prefix z (drop 0 (c # a) @ z @ b)"
    using first_at [OF Cons.prems assms(2), of 0 b] by simp
  then have n: "rmatch (lit z) (c # a @ z @ b) = None" by (simp add: rmatch_lit)
  have "\<not> str_includes (a @ butlast z) z" using Cons.prems by simp
  then have "rmatch (Lazy AnyChar # lit z) (a @ z @ b) = Some (length a + length z)"
    by (rule Cons.IH)
  then show ?case using n by simp
qed

lemma str_match_skip:
  assumes "\<And>k. k < length a \<Longrightarrow> rmatch re (drop k a @ b) = None"
  shows "str_match re (a @ b) = str_match re b"
  using assms
proof (induction a)
  case Nil
  then show ?case by simp
next
  case (Cons c a)
  have "rmatch re (c # a @ b) = None" using Cons.prems [of 0] by simp
  moreover have "str_match re (a @ b) = str_match re b"
  proof (rule Cons.IH)
    fix k assume "k < length a"
    then show "rmatch re (drop k a @ b) = None" using Cons.prems [of "Suc k"] by simp
  qed
  ultimately show ?case by simp
qed

lemma str_match_here:
  "rmatch re s = Some n \<Longrightarrow> str_match re s = Some (take n s)"
  by (cases s) simp_all

lemma indexOf_at:
  assumes "\<not> str_includes (a @ butlast x) x" and "x \<noteq> []"
  shows "indexOf (a @ x @ b) x = Some (length a)"
  using assms(1)
proof (induction a)
  case Nil
  then show ?case using assms(2) by (cases x) simp_all
next
  case (Cons c a)
  have "\<not> prefix x (drop 0 (c # a) @ x @ b)"
    using first_at [OF Cons.prems assms(2), of 0 b] by simp
  moreover have "\<not> str_includes (a @ butlast x) x" using Cons.prems by simp
  ultimately show ?case using Cons.IH by simp
qed

text \<open>
  Occurrences of a text without a line feed in a text around the two parts of the
  template.
\<close>

lemma occurrences_around:
  assumes "x \<noteq> []" and "CHR 0x0A \<notin> set x"
  shows "occurrences x (a @ tailBody @ CHR 0x0A # headBody @ CHR 0x0A # b) =
         occurrences x a + occurrences x tailBody + occurrences x headBody + occurrences x b"
proof -
  have 1: "occurrences x (headBody @ CHR 0x0A # b) = occurrences x headBody + occurrences x b"
    using occurrences_sep [OF assms(2,1)] by simp
  have 2: "occurrences x (tailBody @ CHR 0x0A # headBody @ CHR 0x0A # b) =
      occurrences x tailBody + (occurrences x headBody + occurrences x b)"
    using occurrences_sep [OF assms(2,1), of tailBody "headBody @ CHR 0x0A # b"] 1 by simp
  have "occurrences x (a @ (tailBody @ CHR 0x0A # headBody @ CHR 0x0A # b)) =
      occurrences x a + occurrences x (tailBody @ CHR 0x0A # headBody @ CHR 0x0A # b)"
    using tailBody_hd assms by (intro occurrences_sep_hd) simp_all
  then show ?thesis using 2 by simp
qed

lemma occurrences_tail:
  assumes "x \<noteq> []" and "CHR 0x0A \<notin> set x"
  shows "occurrences x (a @ tailBody @ CHR 0x0A # b) =
         occurrences x a + occurrences x tailBody + occurrences x b"
proof -
  have 1: "occurrences x (tailBody @ CHR 0x0A # b) = occurrences x tailBody + occurrences x b"
    using occurrences_sep [OF assms(2,1)] by simp
  have "occurrences x (a @ (tailBody @ CHR 0x0A # b)) =
      occurrences x a + occurrences x (tailBody @ CHR 0x0A # b)"
    using tailBody_hd assms by (intro occurrences_sep_hd) simp_all
  then show ?thesis using 1 by simp
qed

lemmas decide = prefix_if str_includes_if

lemma headLines_section: "list_all (\<lambda>l. \<not> str_includes l ''</section>'') headLines"
  by (simp add: headLines_def decide del: Cons_prefix_Cons str_includes.simps(2))

lemma tailLines_section: "list_all (\<lambda>l. \<not> str_includes l ''</section>'') tailLines"
  by (simp add: tailLines_def sq_def decide del: Cons_prefix_Cons str_includes.simps(2))

lemma tailLines_body: "list_all (\<lambda>l. \<not> str_includes l ''</body>'') (butlast tailLines)"
  by (simp add: tailLines_def sq_def decide del: Cons_prefix_Cons str_includes.simps(2))

lemma template_section:
  "occurrences ''</section>'' headBody = 0" "occurrences ''</section>'' tailBody = 0"
proof -
  have x: "CHR 0x0A \<notin> set ''</section>''" "''</section>'' \<noteq> []" by simp_all
  have "\<not> str_includes headBody ''</section>''"
    unfolding headBody_def by (rule join_excludes [OF x list_all_butlast [OF headLines_section]])
  then show "occurrences ''</section>'' headBody = 0" by (simp add: occurrences_zero)
  have "\<not> str_includes tailBody ''</section>''"
    unfolding tailBody_def by (rule join_excludes [OF x list_all_butlast [OF tailLines_section]])
  then show "occurrences ''</section>'' tailBody = 0" by (simp add: occurrences_zero)
qed

lemma template_body: "occurrences ''</body>'' tailBody = 0"
proof -
  have x: "CHR 0x0A \<notin> set ''</body>''" "''</body>'' \<noteq> []" by simp_all
  have "\<not> str_includes tailBody ''</body>''"
    unfolding tailBody_def by (rule join_excludes [OF x tailLines_body])
  then show ?thesis by (simp add: occurrences_zero)
qed

section \<open>The page that the footer removal writes back unchanged\<close>

lemma open_tag:
  \<open>rmatch footerSection (''<section class="cid-tJkSLE66e9">'' @ t) =
     map_option (\<lambda>n. 32 + n) (rmatch (Lazy AnyChar # lit ''</section>'') t)\<close>
proof (cases "rmatch (Lazy AnyChar # lit ''</section>'') t")
  case None
  then show ?thesis by (simp add: footerSection_def lit_def)
next
  case (Some n)
  then show ?thesis by (simp add: footerSection_def lit_def)
qed

lemma widget_here:
  "rmatch googleTranslate (echoHead @ echoTail @ t) = Some (length (echoHead @ echoTail))"
  by (simp add: googleTranslate_def lit_def echoHead_def echoTail_def container_def)

lemma echo_parts:
  "\<not> str_includes echoTail container"
  "\<not> str_includes (''    '' @ butlast container) container"
  "\<not> str_includes echoTail ''</section>''"
  "\<not> str_includes echoTail ''</body>''"
  \<open>\<not> str_includes (''<script src="translate_a/element"></script>'') ''</section>''\<close>
  "\<not> str_includes (''    '' @ container @ ''</section'') ''</section>''"
  "str_includes echoTail footerMarker"
  "CHR ''$'' \<notin> set (echoHead @ echoTail)"
  by (simp_all add: echoTail_def echoHead_def container_def footerMarker_def decide
      del: Cons_prefix_Cons str_includes.simps(2))

lemma echoPage_shape:
  \<open>echoPage =
     ''<section class="cid-tJkSLE66e9">'' @
     (''<script src="translate_a/element"></script>'' @ tailBody @ CHR 0x0A # headBody @
      CHR 0x0A # ''    '' @ container) @ ''</section>'' @ echoTail @ wrapTail\<close>
  by (simp add: echoPage_def echoTail_def echoHead_def wrapHead_split)

lemma echo_widget: "str_match googleTranslate echoPage = Some (echoHead @ echoTail)"
proof -
  define a where "a = echoTail @ tailBody @ CHR 0x0A # headBody @ CHR 0x0A # ''    ''"
  define b where "b = ''</section>'' @ echoTail @ wrapTail"
  have page: "echoPage = a @ container @ b"
    by (simp add: echoPage_def a_def b_def echoHead_def wrapHead_split)
  have x: "container \<noteq> []" "CHR 0x0A \<notin> set container" using container_facts by simp_all
  have "occurrences container (a @ butlast container) = 0"
    using occurrences_around [OF x, of echoTail "''    '' @ butlast container"] echo_parts(1,2)
      template_container x(1)
    by (simp add: a_def occurrences_zero del: occurrences.simps)
  then have none: "\<not> str_includes (a @ butlast container) container"
    using x(1) by (simp add: occurrences_zero)
  have "rmatch googleTranslate (drop k a @ container @ b) = None" if "k < length a" for k
  proof -
    have "\<not> prefix container (drop k a @ container @ b)"
      using first_at [OF none x(1) that] by simp
    then show ?thesis
      using rmatch_lit_append [of container _ "drop k a @ container @ b"]
      by (simp add: googleTranslate_def container_def)
  qed
  then have "str_match googleTranslate (a @ container @ b) = str_match googleTranslate (container @ b)"
    by (rule str_match_skip)
  moreover have "str_match googleTranslate (container @ b) = Some (echoHead @ echoTail)"
  proof -
    define w where "w = echoHead @ echoTail"
    have "rmatch googleTranslate (w @ wrapTail) = Some (length w)"
      using widget_here [of wrapTail] by (simp add: w_def)
    then have "str_match googleTranslate (w @ wrapTail) = Some (take (length w) (w @ wrapTail))"
      by (rule str_match_here)
    then have "str_match googleTranslate (w @ wrapTail) = Some w" by simp
    then show ?thesis by (simp add: w_def b_def echoHead_def)
  qed
  ultimately show ?thesis unfolding page by simp
qed

lemma footerSection_ends:
  "footerSection =
     (lit ''<section'' @ [Greedy (NoneOf ''>'')] @ lit ''cid-tJkSLE66e9'' @
      [Greedy (NoneOf ''>'')] @ lit ''>'' @ [Lazy AnyChar]) @ lit ''</section>''"
  by (simp add: footerSection_def)

lemma footer_needs_close: "rmatch footerSection t = Some n \<Longrightarrow> str_includes t ''</section>''"
  unfolding footerSection_ends by (rule rmatch_ends_with)

lemma echo_rest_section: "\<not> str_includes (echoTail @ wrapTail) ''</section>''"
proof -
  have "occurrences ''</section>'' (echoTail @ tailBody @ CHR 0x0A # ''</body>'') = 0"
    using occurrences_tail [of "''</section>''" echoTail "''</body>''"] echo_parts(3)
      template_section(2)
    by (simp add: occurrences_zero decide del: occurrences.simps Cons_prefix_Cons)
  then show ?thesis by (simp add: wrapTail_split occurrences_zero)
qed

lemma echo_removed: "replace_g footerSection [] echoPage = echoTail @ wrapTail"
proof -
  define a where \<open>a = ''<script src="translate_a/element"></script>'' @ tailBody @
      CHR 0x0A # headBody @ CHR 0x0A # ''    '' @ container\<close>
  define m1 where \<open>m1 = ''<section class="cid-tJkSLE66e9">'' @ a @ ''</section>''\<close>
  have page: "echoPage = m1 @ echoTail @ wrapTail"
    using echoPage_shape by (simp add: m1_def a_def)
  have x: "''</section>'' \<noteq> []" "CHR 0x0A \<notin> set ''</section>''" by simp_all
  have "occurrences ''</section>'' (a @ butlast ''</section>'') = 0"
    using occurrences_around [OF x, of \<open>''<script src="translate_a/element"></script>''\<close>
        "''    '' @ container @ ''</section''"]
      echo_parts(5,6) template_section
    by (simp add: a_def occurrences_zero del: occurrences.simps)
  then have "\<not> str_includes (a @ butlast ''</section>'') ''</section>''"
    by (simp add: occurrences_zero del: str_includes.simps)
  then have "rmatch (Lazy AnyChar # lit ''</section>'') (a @ ''</section>'' @ echoTail @ wrapTail) =
      Some (length a + length ''</section>'')"
    by (intro lazy_any_lit) simp_all
  then have "rmatch footerSection echoPage = Some (length m1)"
    using open_tag [of "a @ ''</section>'' @ echoTail @ wrapTail"] page
    by (simp add: m1_def)
  moreover have "0 < length m1" by (simp add: m1_def)
  ultimately have "replace_g footerSection [] echoPage =
      [] @ replace_g footerSection [] (drop (length m1) echoPage)"
    by (rule replace_g_hit)
  moreover have "replace_g footerSection [] (echoTail @ wrapTail) = echoTail @ wrapTail"
  proof (rule replace_g_none)
    fix t assume t: "suffix t (echoTail @ wrapTail)"
    show "rmatch footerSection t = None"
    proof (rule ccontr)
      assume "rmatch footerSection t \<noteq> None"
      then obtain n where "rmatch footerSection t = Some n" by blast
      then have "str_includes t ''</section>''" by (rule footer_needs_close)
      then obtain u where "suffix u t" "prefix ''</section>'' u" using str_includes_iff by blast
      then have "str_includes (echoTail @ wrapTail) ''</section>''"
        using t str_includes_iff suffix_order.trans by blast
      then show False using echo_rest_section by simp
    qed
  qed
  moreover have "drop (length m1) echoPage = echoTail @ wrapTail"
    unfolding page by simp
  ultimately show ?thesis by simp
qed

lemma echo_inserted:
  "replace_str ''</body>'' (wrapWidget (echoHead @ echoTail)) (echoTail @ wrapTail) = echoPage"
proof -
  define a where "a = echoTail @ tailBody @ [CHR 0x0A]"
  have rest: "echoTail @ wrapTail = a @ ''</body>'' @ []"
    by (simp add: a_def wrapTail_split)
  have x: "''</body>'' \<noteq> []" "CHR 0x0A \<notin> set ''</body>''" by simp_all
  have "occurrences ''</body>'' (echoTail @ tailBody @ CHR 0x0A # ''</body'') = 0"
    using occurrences_tail [OF x, of echoTail "''</body''"] echo_parts(4) template_body
    by (simp add: occurrences_zero decide del: occurrences.simps Cons_prefix_Cons)
  then have "\<not> str_includes (a @ butlast ''</body>'') ''</body>''"
    by (simp add: a_def occurrences_zero del: str_includes.simps)
  then have k: "indexOf (a @ ''</body>'' @ []) ''</body>'' = Some (length a)"
    by (intro indexOf_at) simp_all
  have "CHR ''$'' \<notin> set (wrapWidget (echoHead @ echoTail))"
    using template_plain echo_parts(8) by (simp add: wrapWidget_def)
  then have "GetSubstitution ''</body>'' a [] (wrapWidget (echoHead @ echoTail)) =
      wrapWidget (echoHead @ echoTail)"
    by (rule GetSubstitution_plain)
  then have "replace_str ''</body>'' (wrapWidget (echoHead @ echoTail)) (a @ ''</body>'' @ []) =
      a @ wrapWidget (echoHead @ echoTail)"
    using k by (simp add: replace_str_def Let_def del: indexOf.simps)
  then show ?thesis
    unfolding rest [symmetric] by (simp add: a_def wrapWidget_def echoPage_def)
qed

lemma echo_processContent: "processContent echoPage = (echoPage, True)"
proof -
  have m: "str_includes echoPage footerMarker"
    unfolding echoPage_def using echo_parts(7) by (rule str_includes_append1)
  have lt: "length (echoTail @ wrapTail) < length echoPage" by (simp add: echoPage_def)
  have ne: "echoTail @ wrapTail \<noteq> echoPage"
  proof
    assume "echoTail @ wrapTail = echoPage"
    then have "length (echoTail @ wrapTail) = length echoPage" by (rule arg_cong)
    then show False using lt by simp
  qed
  have rf: "removeFooter echoPage = (echoTail @ wrapTail, True)"
    using m ne by (simp add: removeFooter_def echo_removed Let_def)
  have w: "echoHead @ echoTail \<noteq> []" by (simp add: echoTail_def)
  show ?thesis
    using w by (simp add: processContent_def echo_widget rf echo_inserted del: append_is_Nil_conv)
qed

section \<open>Claims about the path rewriting\<close>

text \<open>
  Claim C1. A file below the root with the path segments \<open>segs\<close> has the depth
  \<open>length segs - 1\<close>. When its text is the pieces \<open>pieces\<close> joined by the parent token
  \<^verbatim>\<open>../\<close>, and no piece contains the token (so that the tokens between the pieces are
  all the occurrences of the token in the text; by \<open>content_split\<close> every text has such
  pieces), the depth step of \<^verbatim>\<open>fixPathsInHtml\<close> yields the same pieces joined by \<^verbatim>\<open>./\<close> at
  depth 0, by \<^verbatim>\<open>../\<close> at depth 1 and by \<open>d\<close> copies of \<^verbatim>\<open>../\<close> at a depth \<open>d\<close> from 2 on,
  and the file holds that text after the rewriting of the old domain.
\<close>

theorem fixPathsInHtml_depth_rule:
  assumes "segs \<noteq> []" and "d = length segs - 1"
    and "pieces \<noteq> []" and "\<forall>p\<in>set pieces. \<not> str_includes p ''../''"
    and "read_error f = None" and "write_error f = None"
    and "text_of f = join ''../'' pieces"
  shows "depth_of rootPath (rootPath @ segs) = d \<and>
         fixRelative d (text_of f) =
           join (if d = 0 then ''./'' else if d = 1 then ''../''
                 else concat (replicate d ''../'')) pieces \<and>
         text_of (file_of (fixPathsInHtml (rootPath @ segs) rootPath f n)) =
           fixDomain (fixRelative d (text_of f))"
proof -
  have d: "depth_of rootPath (rootPath @ segs) = d"
    using assms(1,2) by (simp add: depth_of_below)
  have r: "replace_g parentToken rep (text_of f) = join rep pieces" for rep
    using assms(3,4,7) by (simp add: parent_join)
  have t: "text_of (file_of (fixPathsInHtml (rootPath @ segs) rootPath f n)) =
           fixDomain (fixRelative d (text_of f))"
    using assms(5,6) d by (simp add: fixPathsInHtml_text fixContent_def)
  show ?thesis using d r t by (simp add: fixRelative_def repeat_def)
qed

theorem fixPathsInHtml_depth_rule_witness:
  "(depth_of [''site''] ([''site''] @ [''a'', ''b'', ''c'', ''p.html'']) = 3 \<and>
    fixRelative 3
      (text_of \<lparr>text_of = ''<a href=../x.html>../'', read_error = None, write_error = None\<rparr>) =
      join (if (3::nat) = 0 then ''./'' else if (3::nat) = 1 then ''../''
            else concat (replicate 3 ''../''))
        [''<a href='', ''x.html>'', []] \<and>
    text_of (file_of (fixPathsInHtml ([''site''] @ [''a'', ''b'', ''c'', ''p.html'']) [''site'']
        \<lparr>text_of = ''<a href=../x.html>../'', read_error = None, write_error = None\<rparr> 0)) =
      fixDomain (fixRelative 3
        (text_of \<lparr>text_of = ''<a href=../x.html>../'', read_error = None,
           write_error = None\<rparr>))) \<and>
   fixRelative 3 ''<a href=../x.html>../'' = ''<a href=../../../x.html>../../../'' \<and>
   fixRelative 2 ''<a href=../x.html>../'' = ''<a href=../../x.html>../../'' \<and>
   fixRelative 1 ''<a href=../x.html>../'' = ''<a href=../x.html>../'' \<and>
   fixRelative 0 ''<a href=../x.html>../'' = ''<a href=./x.html>./''"
  by (rule conjI, (rule fixPathsInHtml_depth_rule; code_simp), code_simp)






text \<open>
  Claim C6, as stated, fails for the path fixer: a text with neither the footer marker
  nor a parent token, but with a quoted reference to the old domain, is rewritten and
  written back.
\<close>

theorem noop_counterexample:
  "\<not> str_includes (sq # ''www.miracles-of-quran.com/a.css'' @ [sq]) footerMarker \<and>
   \<not> str_includes (sq # ''www.miracles-of-quran.com/a.css'' @ [sq]) ''../'' \<and>
   fixPathsInHtml [''site'', ''p.html''] [''site'']
     \<lparr>text_of = sq # ''www.miracles-of-quran.com/a.css'' @ [sq], read_error = None,
      write_error = None\<rparr> 0 =
   \<lparr>file_of = \<lparr>text_of = dq # ''./a.css'' @ [sq], read_error = None, write_error = None\<rparr>,
    writes = [dq # ''./a.css'' @ [sq]], processedFiles = 1\<rparr>"
  by code_simp

text \<open>
  Claim C6, amended. A file whose text holds neither the footer marker, nor a parent
  token, nor a quote followed by the old domain prefix (with or without a leading
  slash) is left as it is by both tools: nothing is written, the file and the counter
  are unchanged.
\<close>

theorem noop_safety:
  assumes "\<not> str_includes (text_of f) footerMarker"
    and "\<not> str_includes (text_of f) ''../''"
    and "\<not> str_includes (text_of f) (dq # ''/www.miracles-of-quran.com/'')"
    and "\<not> str_includes (text_of f) (sq # ''/www.miracles-of-quran.com/'')"
    and "\<not> str_includes (text_of f) (dq # ''www.miracles-of-quran.com/'')"
    and "\<not> str_includes (text_of f) (sq # ''www.miracles-of-quran.com/'')"
  shows "fixPathsInHtml filePath rootPath f n =
           \<lparr>file_of = f, writes = [], processedFiles = n\<rparr> \<and>
         snd (processFile f n) = \<lparr>file_of = f, writes = [], processedFiles = n\<rparr>"
proof -
  have "fixContent (depth_of rootPath filePath) (text_of f) = text_of f"
    using assms(2-6) by (simp add: fixContent_def fixRelative_none fixDomain_none)
  then have a: "fixPathsInHtml filePath rootPath f n =
      \<lparr>file_of = f, writes = [], processedFiles = n\<rparr>"
    by (simp add: fixPathsInHtml_def readFileSync_def Let_def split: option.splits)
  have "processContent (text_of f) = (text_of f, False)"
    using assms(1) by (rule processContent_none)
  then have "snd (processFile f n) = \<lparr>file_of = f, writes = [], processedFiles = n\<rparr>"
    by (simp add: processFile_def readFileSync_def split: option.splits)
  then show ?thesis using a by simp
qed

theorem noop_safety_witness:
  "fixPathsInHtml [''site'', ''p.html''] [''site'']
     \<lparr>text_of = ''<p>hello</p>'', read_error = None, write_error = None\<rparr> 4 =
     \<lparr>file_of = \<lparr>text_of = ''<p>hello</p>'', read_error = None, write_error = None\<rparr>,
      writes = [], processedFiles = 4\<rparr> \<and>
   snd (processFile \<lparr>text_of = ''<p>hello</p>'', read_error = None, write_error = None\<rparr> 4) =
     \<lparr>file_of = \<lparr>text_of = ''<p>hello</p>'', read_error = None, write_error = None\<rparr>,
      writes = [], processedFiles = 4\<rparr>"
  by (rule noop_safety; code_simp)

section \<open>Claims about the scanner\<close>

text \<open>
  Claim C7. Every path that \<^verbatim>\<open>getAllHtmlFiles\<close> returns lies below the scanned directory
  and leads, through directories of the tree, to an entry that is not a directory; no
  segment of it below the scanned directory (no directory on the way, at any depth, and
  not the name of the file itself) starts with a dot, is \<^verbatim>\<open>node_modules\<close> or
  \<^verbatim>\<open>hts-cache\<close> or contains \<^verbatim>\<open>backup\<close>, and the name of the file ends in \<^verbatim>\<open>.html\<close>. The
  name of the scanned directory itself is not tested.
\<close>

theorem scanner_exclusions:
  assumes "p \<in> set (fst (getAllHtmlFiles readable cwd dir items visited))"
  shows "\<exists>segs. p = dir @ segs \<and> included segs \<and> leads_to items segs"
  using assms by (rule scan_paths(1))

theorem scanner_exclusions_witness:
  "(\<exists>segs. [''site'', ''pages'', ''one.html''] = [''site''] @ segs \<and> included segs \<and>
      leads_to mirror_tree segs) \<and>
   fst (getAllHtmlFiles (\<lambda>p. True) [''home''] [''site''] mirror_tree {}) =
     [[''site'', ''index.html''], [''site'', ''pages'', ''one.html''], [''site'', ''again.html'']]"
  by (rule conjI, (rule scanner_exclusions [of _ "\<lambda>p. True" "[''home'']" _ mirror_tree "{}"]; code_simp), code_simp)



section \<open>Claims about the restructurer\<close>

text \<open>
  Claim C3, as stated, fails: the log file name is looked for as it is written, not
  without regard to case. An outer index whose text names the log file in capitals
  matches the marker of the claim, and is kept as \<^verbatim>\<open>original-index.html\<close>.
\<close>

theorem index_conflict_counterexample:
  "str_includes (toLowerCase ''See HTS-LOG.TXT'') ''hts-log.txt'' \<and>
   resolveIndexConflict
     (Dir [(''index.html'', File ''See HTS-LOG.TXT''),
           (''www.miracles-of-quran.com'', Dir [(''index.html'', File ''<html>home</html>'')])]) =
   (None,
    Dir [(''www.miracles-of-quran.com'', Dir []),
         (''original-index.html'', File ''See HTS-LOG.TXT''),
         (''index.html'', File ''<html>home</html>'')])"
  by code_simp

text \<open>
  Claim C3, amended. When the outer and the inner index are both files, the text of the
  outer one is tested for \<^verbatim>\<open>httrack\<close> and for \<^verbatim>\<open>mirror\<close> without regard to case and for
  \<^verbatim>\<open>hts-log.txt\<close> as it is written. When a test succeeds the outer file is renamed to
  \<^verbatim>\<open>httrack-index.html\<close>, otherwise to \<^verbatim>\<open>original-index.html\<close> (\<open>backupName\<close>), unless a
  directory has that name; in both cases the inner file becomes the index of the root
  and leaves the subdirectory.
\<close>

theorem index_conflict_resolution:
  assumes "lookup fs [''index.html''] = Some (File outer)"
    and "lookup fs (miraculesSubDir @ [''index.html'']) = Some (File inner)"
    and "statIsDirectory fs [backupName outer] \<noteq> Inr True"
  shows "\<exists>fs'. resolveIndexConflict fs = (None, fs') \<and>
           lookup fs' [backupName outer] = Some (File outer) \<and>
           lookup fs' [''index.html''] = Some (File inner) \<and>
           lookup fs' (miraculesSubDir @ [''index.html'']) = None"
proof -
  have nd: "\<forall>es. lookup fs [backupName outer] \<noteq> Some (Dir es)"
    using assms(3) by (auto simp: statIsDirectory_def)
  have b1: "backupName outer \<noteq> ''index.html''" and b2: "[backupName outer] \<noteq> miraculesSubDir"
    by (simp_all add: backupName_def miraculesSubDir_def)
  have "resolveIndexConflict fs = backupIndex fs [backupName outer]"
    using assms(1,2)
    by (simp add: resolveIndexConflict_def existsSync_def readFile_def backupName_def Let_def)
  then show ?thesis
    using backupIndex_ok [OF assms(1,2) b1 b2 nd] by simp
qed

theorem index_conflict_resolution_witness:
  "(\<exists>fs'. resolveIndexConflict
       (Dir [(''index.html'', File ''<title>Local index - HTTrack</title>''),
             (''www.miracles-of-quran.com'', Dir [(''index.html'', File ''<html>home</html>'')])]) =
       (None, fs') \<and>
      lookup fs' [backupName ''<title>Local index - HTTrack</title>''] =
        Some (File ''<title>Local index - HTTrack</title>'') \<and>
      lookup fs' [''index.html''] = Some (File ''<html>home</html>'') \<and>
      lookup fs' (miraculesSubDir @ [''index.html'']) = None) \<and>
   backupName ''<title>Local index - HTTrack</title>'' = ''httrack-index.html'' \<and>
   backupName ''<title>My site</title>'' = ''original-index.html'' \<and>
   resolveIndexConflict
     (Dir [(''index.html'', File ''<title>Local index - HTTrack</title>''),
           (''www.miracles-of-quran.com'', Dir [(''index.html'', File ''<html>home</html>'')])]) =
   (None,
    Dir [(''www.miracles-of-quran.com'', Dir []),
         (''httrack-index.html'', File ''<title>Local index - HTTrack</title>''),
         (''index.html'', File ''<html>home</html>'')])"
  by (rule conjI, (rule index_conflict_resolution; code_simp), code_simp)

text \<open>
  Claim C5 against the code. The subdirectory holds a directory \<^verbatim>\<open>css\<close> and the root a
  file of that name: the loop of \<^verbatim>\<open>moveAndFixStructure\<close> tests the source only and calls
  \<^verbatim>\<open>mergeDirectories\<close>, whose first \<^verbatim>\<open>renameSync\<close> throws; the error is logged, the file
  of the root stays and the directory stays in the subdirectory. One level further
  down \<^verbatim>\<open>mergeDirectories\<close> tests both sides, and there the file is replaced by the
  directory.
\<close>

theorem collision_directory_over_file:
  "moveAndFixStructure 10
     (Dir [(''css'', File ''x''),
           (''www.miracles-of-quran.com'', Dir [(''css'', Dir [(''a.css'', File ''body{}'')])])]) =
   (Inr True,
    Dir [(''css'', File ''x''),
         (''www.miracles-of-quran.com'', Dir [(''css'', Dir [(''a.css'', File ''body{}'')])])]) \<and>
   moveAndFixStructure 10
     (Dir [(''a'', Dir [(''css'', File ''x'')]),
           (''www.miracles-of-quran.com'',
            Dir [(''a'', Dir [(''css'', Dir [(''a.css'', File ''body{}'')])])])]) =
   (Inr True, Dir [(''a'', Dir [(''css'', Dir [(''a.css'', File ''body{}'')])])])"
  by code_simp

section \<open>Claims about the footer removal\<close>




section \<open>Claims about the write-back\<close>

text \<open>
  Claim C9, as stated, fails for the footer removal: \<^verbatim>\<open>processFile\<close> writes when the
  removal step changed the text, and the re-insertion of the widget can bring the text
  back to what it was. On \<open>echoPage\<close> the transformed text is the original text, and the
  file is written and counted all the same.
\<close>

theorem write_back_counterexample:
  "processFile \<lparr>text_of = echoPage, read_error = None, write_error = None\<rparr> 0 =
     (Success True,
      \<lparr>file_of = \<lparr>text_of = echoPage, read_error = None, write_error = None\<rparr>,
       writes = [echoPage], processedFiles = 1\<rparr>)"
  by (simp add: processFile_def readFileSync_def writeFileSync_def echo_processContent)

text \<open>
  Claim C9, amended. Of a file that can be read, \<^verbatim>\<open>fixPathsInHtml\<close> writes the
  transformed text if and only if it differs from the original text, and
  \<^verbatim>\<open>processFile\<close> writes its output if and only if the removal of the footer sections
  changed the text. Where nothing is written the file and the counter stay as they
  were; where the write succeeds the counter goes up by one.
\<close>

theorem write_back_guard:
  assumes "read_error f = None"
  shows "fixPathsInHtml filePath rootPath f n =
           (if fixContent (depth_of rootPath filePath) (text_of f) = text_of f
            then \<lparr>file_of = f, writes = [], processedFiles = n\<rparr>
            else \<lparr>file_of =
                    (if write_error f = None
                     then f\<lparr>text_of := fixContent (depth_of rootPath filePath) (text_of f)\<rparr>
                     else f),
                  writes = [fixContent (depth_of rootPath filePath) (text_of f)],
                  processedFiles = (if write_error f = None then n + 1 else n)\<rparr>) \<and>
         snd (processFile f n) =
           (if fst (removeFooter (text_of f)) = text_of f
            then \<lparr>file_of = f, writes = [], processedFiles = n\<rparr>
            else \<lparr>file_of =
                    (if write_error f = None
                     then f\<lparr>text_of := fst (processContent (text_of f))\<rparr>
                     else f),
                  writes = [fst (processContent (text_of f))],
                  processedFiles = (if write_error f = None then n + 1 else n)\<rparr>)"
proof -
  have a: "fixPathsInHtml filePath rootPath f n =
      (if fixContent (depth_of rootPath filePath) (text_of f) = text_of f
       then \<lparr>file_of = f, writes = [], processedFiles = n\<rparr>
       else \<lparr>file_of =
               (if write_error f = None
                then f\<lparr>text_of := fixContent (depth_of rootPath filePath) (text_of f)\<rparr>
                else f),
             writes = [fixContent (depth_of rootPath filePath) (text_of f)],
             processedFiles = (if write_error f = None then n + 1 else n)\<rparr>)"
    using assms
    by (auto simp: fixPathsInHtml_def readFileSync_def writeFileSync_def Let_def
        split: option.splits)
  have changed: "snd (processContent (text_of f)) \<longleftrightarrow> fst (removeFooter (text_of f)) \<noteq> text_of f"
    by (auto simp: processContent_def removeFooter_def Let_def split: prod.splits)
  have b: "snd (processFile f n) =
      (if fst (removeFooter (text_of f)) = text_of f
       then \<lparr>file_of = f, writes = [], processedFiles = n\<rparr>
       else \<lparr>file_of =
               (if write_error f = None
                then f\<lparr>text_of := fst (processContent (text_of f))\<rparr>
                else f),
             writes = [fst (processContent (text_of f))],
             processedFiles = (if write_error f = None then n + 1 else n)\<rparr>)"
    using assms changed
    by (cases "processContent (text_of f)")
      (auto simp: processFile_def readFileSync_def writeFileSync_def split: option.splits)
  show ?thesis using a b by (rule conjI)
qed

theorem write_back_guard_witness:
  \<open>(fixPathsInHtml [''site'', ''p.html''] [''site''] small_page 0 =
           (if fixContent (depth_of [''site''] [''site'', ''p.html'']) (text_of small_page) =
               text_of small_page
            then \<lparr>file_of = small_page, writes = [], processedFiles = 0\<rparr>
            else \<lparr>file_of =
                    (if write_error small_page = None
                     then small_page\<lparr>text_of :=
                       fixContent (depth_of [''site''] [''site'', ''p.html'']) (text_of small_page)\<rparr>
                     else small_page),
                  writes = [fixContent (depth_of [''site''] [''site'', ''p.html'']) (text_of small_page)],
                  processedFiles = (if write_error small_page = None then 0 + 1 else 0)\<rparr>) \<and>
         snd (processFile small_page 0) =
           (if fst (removeFooter (text_of small_page)) = text_of small_page
            then \<lparr>file_of = small_page, writes = [], processedFiles = 0\<rparr>
            else \<lparr>file_of =
                    (if write_error small_page = None
                     then small_page\<lparr>text_of := fst (processContent (text_of small_page))\<rparr>
                     else small_page),
                  writes = [fst (processContent (text_of small_page))],
                  processedFiles = (if write_error small_page = None then 0 + 1 else 0)\<rparr>)) \<and>
   writes (fixPathsInHtml [''site'', ''p.html''] [''site''] small_page 0) =
     [''<section class="cid-tJkSLE66e9"><a href="./x">x</a></section><p>y</p>''] \<and>
   processFile small_page 0 =
     (Success True,
      \<lparr>file_of = \<lparr>text_of = ''<p>y</p>'', read_error = None, write_error = None\<rparr>,
       writes = [''<p>y</p>''], processedFiles = 1\<rparr>) \<and>
   processFile \<lparr>text_of = ''<p>y</p>'', read_error = None, write_error = None\<rparr> 1 =
     (Success False,
      \<lparr>file_of = \<lparr>text_of = ''<p>y</p>'', read_error = None, write_error = None\<rparr>,
       writes = [], processedFiles = 1\<rparr>)\<close>
  by (rule conjI, (rule write_back_guard; code_simp), code_simp)

end
